theory Spec2Isabelle
  imports Complex_Main "HOL-Library.Sublist" "HOL-Library.Char_ord" "HOL-Library.List_Lexorder"
begin

section \<open>Data model of \<^verbatim>\<open>lexicon.py\<close>\<close>

text \<open>
  A lexicon is a Python list of 3-tuples \<^verbatim>\<open>(word, pron-prob, prons)\<close>: the word, its
  weight (used directly as an additive cost) and the pronunciation, a list of phone names.
  Python floats (weights, probabilities, arc costs) are modelled as exact reals and
  \<^verbatim>\<open>math.log\<close> as \<open>ln\<close>; rounding is not modelled.
\<close>

type_synonym lexicon_entry = "string \<times> real \<times> string list"

text \<open>The exceptions the modelled code can raise.\<close>

datatype error = AssertionError | IndexError | KeyError | ZeroDivisionError | TypeError

text \<open>
  A line of the text format of the transducer: an arc
  \<^verbatim>\<open>src<TAB>dest<TAB>phone<TAB>word<TAB>cost\<close> or a final state
  \<^verbatim>\<open>state<TAB>final_cost\<close>.
\<close>

datatype fst_line =
    Arc (src: nat) (dest: nat) (phone: string) (word: string) (cost: real)
  | Final (state: nat) (final_cost: real)

text \<open>
  \<^verbatim>\<open>print(..., file=f)\<close> appends a line to the stream \<open>f\<close>; \<^verbatim>\<open>print(...)\<close> with no
  \<^verbatim>\<open>file\<close> argument appends it to the standard output. The effect of the emitters is
  the sequence of lines they print, each with the stream it went to, in program order.
\<close>

datatype sink = Stdout | FileObj nat

type_synonym printed = "(sink \<times> fst_line) list"

definition written_to :: "sink \<Rightarrow> printed \<Rightarrow> fst_line list" where
  "written_to f out = map snd (filter (\<lambda>l. fst l = f) out)"

text \<open>The arcs of a printed text that leave a given state.\<close>

definition arcs_from :: "nat \<Rightarrow> printed \<Rightarrow> fst_line list" where
  "arcs_from q out = filter (\<lambda>l. case l of Arc s d p w c \<Rightarrow> s = q | Final s c \<Rightarrow> False) (map snd out)"

section \<open>The nonterminal extension emitter: \<^verbatim>\<open>write_nonterminal_arcs\<close>\<close>

text \<open>
  Lines 11--61. Every \<^verbatim>\<open>print\<close> of this function has no \<^verbatim>\<open>file\<close> argument.
  \<^verbatim>\<open>len(left_context_phones)\<close> raises \<^verbatim>\<open>TypeError\<close> when the argument is \<^verbatim>\<open>None\<close>,
  and \<^verbatim>\<open>1.0 / 0\<close> raises \<^verbatim>\<open>ZeroDivisionError\<close> when the list is empty; both happen
  after the first arcs were printed. The result is the printed lines and either the
  exception or the returned \<^verbatim>\<open>next_state\<close>.
\<close>

definition write_nonterminal_arcs ::
  "nat \<Rightarrow> nat \<Rightarrow> nat \<Rightarrow> string list \<Rightarrow> string list option \<Rightarrow> printed \<times> (error + nat)" where
  "write_nonterminal_arcs start_state loop_state next_state0 nonterminals left_context_phones =
    (let shared_state = next_state0;
         next_state1 = next_state0 + 1;
         final_state = next_state1;
         next_state = next_state1 + 1;
         out = [(Stdout, Arc start_state shared_state ''#nonterm_begin'' ''#nonterm_begin'' 0)]
               @ map (\<lambda>nonterminal. (Stdout, Arc loop_state shared_state nonterminal nonterminal 0))
                   nonterminals
     in case left_context_phones of
          None \<Rightarrow> (out, Inl TypeError)
        | Some lcp \<Rightarrow>
            if length lcp = 0 then (out, Inl ZeroDivisionError)
            else
              let this_cost = - ln (1 / real (length lcp))
              in (out
                  @ map (\<lambda>left_context_phone.
                          (Stdout, Arc shared_state loop_state left_context_phone ''<eps>'' this_cost))
                      lcp
                  @ [(Stdout, Arc loop_state final_state ''#nonterm_end'' ''#nonterm_end'' 0),
                     (Stdout, Final final_state 0)],
                  Inr next_state))"

section \<open>The transducer emitter: \<^verbatim>\<open>write_fst_with_silence\<close>\<close>

text \<open>
  The inner loop of lines 116--123, one iteration: the arc for position \<open>i\<close> of the
  pronunciation, from the current state to a newly allocated one.
\<close>

definition write_pron_arc ::
  "sink \<Rightarrow> string \<Rightarrow> real \<Rightarrow> string list \<Rightarrow> printed \<times> nat \<times> nat \<Rightarrow> nat \<Rightarrow> printed \<times> nat \<times> nat" where
  "write_pron_arc file wd pron_cost pron = (\<lambda>(out, cur_state, next_state) i.
     (out @ [(file, Arc cur_state next_state (pron ! i)
                      (if i = 0 then wd else ''<eps>'')
                      (if i = 0 then pron_cost else 0))],
      next_state, next_state + 1))"

text \<open>
  The body of the loop over the lexicon, lines 112--137. \<^verbatim>\<open>range(len(pron) - 1)\<close> is empty
  for an empty pronunciation, as \<open>[0..<length pron - 1]\<close> is; \<open>i\<close> is \<open>-1\<close> then, so it is
  an integer.
\<close>

definition write_entry ::
  "sink \<Rightarrow> real \<Rightarrow> real \<Rightarrow> nat \<Rightarrow> nat \<Rightarrow> printed \<times> nat \<Rightarrow> lexicon_entry \<Rightarrow> printed \<times> nat" where
  "write_entry file no_sil_cost sil_cost loop_state sil_state = (\<lambda>(out0, next_state0) (wd, pronprob, pron).
     let pron_cost = pronprob;
         (out, cur_state, next_state) =
            foldl (write_pron_arc file wd pron_cost pron) (out0, loop_state, next_state0)
              [0..<length pron - 1];
         i = int (length pron) - 1;
         ph = (if i \<ge> 0 then pron ! nat i else ''<eps>'');
         w = (if i \<le> 0 then wd else ''<eps>'');
         c = (if i \<le> 0 then pron_cost else 0)
     in (out @ [(file, Arc cur_state loop_state ph w (no_sil_cost + c)),
                (file, Arc cur_state sil_state ph w (sil_cost + c))],
         next_state))"

text \<open>
  Lines 64--146. The assertion on \<^verbatim>\<open>sil_prob\<close> is the first statement. The result is the
  printed lines and the exception raised, if any.
\<close>

definition write_fst_with_silence ::
  "lexicon_entry list \<Rightarrow> real \<Rightarrow> string \<Rightarrow> string option \<Rightarrow> sink \<Rightarrow>
   string list option \<Rightarrow> string list option \<Rightarrow> printed \<times> error option" where
  "write_fst_with_silence lexicon sil_prob sil_phone sil_disambig file nonterminals left_context_phones =
    (if \<not> (sil_prob > 0 \<and> sil_prob < 1) then ([], Some AssertionError)
     else
       let sil_cost = - ln sil_prob;
           no_sil_cost = - ln (1 - sil_prob);
           start_state = 0;
           loop_state = 1;
           sil_state = 2;
           next_state0 = 3;
           out0 = [(file, Arc start_state loop_state ''<eps>'' ''<eps>'' no_sil_cost),
                   (file, Arc start_state sil_state ''<eps>'' ''<eps>'' sil_cost)];
           (out1, next_state1) =
             (case sil_disambig of
                None \<Rightarrow> (out0 @ [(file, Arc sil_state loop_state sil_phone ''<eps>'' 0)], next_state0)
              | Some d \<Rightarrow>
                  let sil_disambig_state = next_state0
                  in (out0 @ [(file, Arc sil_state sil_disambig_state sil_phone ''<eps>'' 0),
                              (file, Arc sil_disambig_state loop_state d ''<eps>'' 0)],
                      next_state0 + 1));
           (out, next_state) =
             foldl (write_entry file no_sil_cost sil_cost loop_state sil_state) (out1, next_state1) lexicon
       in case nonterminals of
            None \<Rightarrow> (out @ [(file, Final loop_state 0)], None)
          | Some nts \<Rightarrow>
              (case write_nonterminal_arcs start_state loop_state next_state nts left_context_phones of
                 (out', Inl e) \<Rightarrow> (out @ out', Some e)
               | (out', Inr next_state') \<Rightarrow> (out @ out' @ [(file, Final loop_state 0)], None)))"

section \<open>Lexicon preparation: \<^verbatim>\<open>prepare_lexicon\<close>\<close>

subsection \<open>Phone check and positional tags\<close>

definition pron_of :: "lexicon_entry \<Rightarrow> string list" where
  "pron_of e = snd (snd e)"

text \<open>
  Lines 161--163: every phone of every pronunciation is a declared phone. The source's
  variable \<^verbatim>\<open>trans\<close> is written \<open>tr\<close> throughout.
\<close>

definition phones_declared :: "lexicon_entry list \<Rightarrow> string list \<Rightarrow> string list \<Rightarrow> bool" where
  "phones_declared lexicon silence_phones nonsilence_phones =
     list_all (\<lambda>(w, p, tr).
        list_all (\<lambda>ph. ph \<in> set nonsilence_phones \<or> ph \<in> set silence_phones) tr) lexicon"

text \<open>
  Lines 166--173, the body of the tagging loop for one pronunciation. A list of length 1
  takes the first branch. Any other list goes to \<^verbatim>\<open>trans[0] += '_B'\<close>, which raises
  \<^verbatim>\<open>IndexError\<close> on the empty list. \<^verbatim>\<open>trans[-1]\<close> is the last position.
\<close>

definition tag_trans :: "string list \<Rightarrow> error + string list" where
  "tag_trans tr =
    (if length tr = 1 then Inr (tr[0 := tr ! 0 @ ''_S''])
     else if length tr = 0 then Inl IndexError
     else
       let trans1 = tr[0 := tr ! 0 @ ''_B''];
           trans2 = (if length trans1 > 2
                     then foldl (\<lambda>t i. t[i := t ! i @ ''_I'']) trans1 [1..<length trans1 - 1]
                     else trans1);
           trans3 = trans2[length trans2 - 1 := trans2 ! (length trans2 - 1) @ ''_E'']
       in Inr trans3)"

text \<open>The loop of lines 165--173 over the (copied) lexicon; the first exception ends it.\<close>

fun tag_lexicon :: "lexicon_entry list \<Rightarrow> error + lexicon_entry list" where
  "tag_lexicon [] = Inr []"
| "tag_lexicon ((w, p, tr) # rest) =
     (case tag_trans tr of
        Inl e \<Rightarrow> Inl e
      | Inr tr' \<Rightarrow>
          (case tag_lexicon rest of
             Inl e \<Rightarrow> Inl e
           | Inr rest' \<Rightarrow> Inr ((w, p, tr') # rest')))"

subsection \<open>Disambiguation symbols\<close>

text \<open>\<^verbatim>\<open>' '.join(trans)\<close>.\<close>

fun join_sp :: "string list \<Rightarrow> string" where
  "join_sp [] = []"
| "join_sp [x] = x"
| "join_sp (x # y # ys) = x @ '' '' @ join_sp (y # ys)"

text \<open>The decimal digits of a natural number, as \<^verbatim>\<open>f'{n}'\<close> prints them.\<close>

definition digit_char :: "nat \<Rightarrow> char" where
  "digit_char d = ''0123456789'' ! d"

function string_of_nat :: "nat \<Rightarrow> string" where
  "string_of_nat n =
     (if n < 10 then [digit_char n] else string_of_nat (n div 10) @ [digit_char (n mod 10)])"
  by pat_completeness auto
termination
  by (relation "measure id") auto

declare string_of_nat.simps [simp del]

text \<open>\<^verbatim>\<open>f'#{n}'\<close>.\<close>

definition disambig_symbol :: "nat \<Rightarrow> string" where
  "disambig_symbol n = ''#'' @ string_of_nat n"

text \<open>Lines 181--187: the number of entries with each joined transcription.\<close>

definition count_entry :: "(string \<rightharpoonup> nat) \<Rightarrow> lexicon_entry \<Rightarrow> (string \<rightharpoonup> nat)" where
  "count_entry count = (\<lambda>(w, p, tr).
     let x = join_sp tr
     in case count x of None \<Rightarrow> count(x \<mapsto> 1) | Some c \<Rightarrow> count(x \<mapsto> c + 1))"

definition count_transcriptions :: "lexicon_entry list \<Rightarrow> (string \<rightharpoonup> nat)" where
  "count_transcriptions lexicon = foldl count_entry Map.empty lexicon"

text \<open>
  Lines 189--194: the joined proper prefixes of every transcription. The inner
  \<^verbatim>\<open>while\<close> loop pops the last phone of a copy until the copy is empty.
\<close>

function pop_prefixes :: "string list \<Rightarrow> string set \<Rightarrow> string set" where
  "pop_prefixes t prefix_set =
     (if length t > 0 then pop_prefixes (butlast t) (insert (join_sp (butlast t)) prefix_set)
      else prefix_set)"
  by pat_completeness auto
termination
  by (relation "measure (\<lambda>(t, prefix_set). length t)") auto

declare pop_prefixes.simps [simp del]

definition all_prefixes :: "lexicon_entry list \<Rightarrow> string set" where
  "all_prefixes lexicon = foldl (\<lambda>prefix_set (w, p, tr). pop_prefixes tr prefix_set) {} lexicon"

text \<open>
  The state of the assignment loop, lines 176--179. \<^verbatim>\<open>reserved_empty\<close> is a Python set that
  only grows by \<^verbatim>\<open>add\<close> and is only asked for membership; it is kept as the list of its
  elements.
\<close>

record disambig_state =
  max_disambig :: nat
  reserved_empty :: "nat list"
  last_sym :: "string \<rightharpoonup> nat"

text \<open>Lines 210--211: \<^verbatim>\<open>while curr_sym in reserved_empty: curr_sym += 1\<close>.\<close>

function skip_reserved :: "nat list \<Rightarrow> nat \<Rightarrow> nat" where
  "skip_reserved reserved curr_sym =
     (if curr_sym \<in> set reserved then skip_reserved reserved (curr_sym + 1) else curr_sym)"
  by pat_completeness auto
termination
proof (relation "measure (\<lambda>(reserved, curr_sym). Suc (Max (insert 0 (set reserved))) - curr_sym)")
  show "wf (measure (\<lambda>(reserved, curr_sym). Suc (Max (insert 0 (set reserved))) - curr_sym))"
    by simp
next
  fix reserved :: "nat list" and curr_sym :: nat
  assume "curr_sym \<in> set reserved"
  then have "curr_sym \<le> Max (insert 0 (set reserved))"
    by simp
  then show "((reserved, curr_sym + 1), (reserved, curr_sym))
      \<in> measure (\<lambda>(reserved, curr_sym). Suc (Max (insert 0 (set reserved))) - curr_sym)"
    by simp
qed

declare skip_reserved.simps [simp del]

text \<open>
  Lines 201--215 without the two \<^verbatim>\<open>append\<close> calls: the symbol for an entry that needs
  one, with joined transcription \<open>x\<close>, and the new state. \<^verbatim>\<open>first_sym\<close> is 1.
\<close>

definition next_symbol :: "disambig_state \<Rightarrow> string \<Rightarrow> disambig_state \<times> nat" where
  "next_symbol st x =
    (if length x = 0 then
       let m = max_disambig st + 1
       in (st\<lparr>max_disambig := m, reserved_empty := m # reserved_empty st\<rparr>, m)
     else
       let first_sym = 1;
           curr_sym0 = (case last_sym st x of None \<Rightarrow> first_sym | Some l \<Rightarrow> l + 1);
           curr_sym = skip_reserved (reserved_empty st) curr_sym0;
           m = (if curr_sym > max_disambig st then curr_sym else max_disambig st)
       in (st\<lparr>max_disambig := m, last_sym := (last_sym st)(x \<mapsto> curr_sym)\<rparr>, curr_sym))"

text \<open>
  Lines 197--200: the test \<^verbatim>\<open>x not in prefix and count[x] == 1\<close>. \<^verbatim>\<open>count[x]\<close> is
  evaluated only when \<open>x\<close> is not a prefix, and raises \<^verbatim>\<open>KeyError\<close> for a missing key.
  An entry that passes the test gets no symbol.
\<close>

definition choose_symbol ::
  "(string \<rightharpoonup> nat) \<Rightarrow> string set \<Rightarrow> disambig_state \<Rightarrow> string \<Rightarrow> error + (disambig_state \<times> nat option)" where
  "choose_symbol count prefix_set st x =
    (if x \<notin> prefix_set \<and> count x = None then Inl KeyError
     else if x \<notin> prefix_set \<and> count x = Some 1 then Inr (st, None)
     else let (st', n) = next_symbol st x in Inr (st', Some n))"

text \<open>\<^verbatim>\<open>trans.append(f'#{n}')\<close>, when a symbol was chosen.\<close>

definition append_symbol :: "string list \<Rightarrow> nat option \<Rightarrow> string list" where
  "append_symbol tr symb = (case symb of None \<Rightarrow> tr | Some n \<Rightarrow> tr @ [disambig_symbol n])"

text \<open>The loop of lines 196--215.\<close>

fun add_disambig_loop ::
  "(string \<rightharpoonup> nat) \<Rightarrow> string set \<Rightarrow> disambig_state \<Rightarrow> lexicon_entry list \<Rightarrow>
   error + (disambig_state \<times> lexicon_entry list)" where
  "add_disambig_loop count prefix_set st [] = Inr (st, [])"
| "add_disambig_loop count prefix_set st ((w, p, tr) # rest) =
     (case choose_symbol count prefix_set st (join_sp tr) of
        Inl e \<Rightarrow> Inl e
      | Inr (st', symb) \<Rightarrow>
          (case add_disambig_loop count prefix_set st' rest of
             Inl e \<Rightarrow> Inl e
           | Inr (st'', rest') \<Rightarrow> Inr (st'', (w, p, append_symbol tr symb) # rest')))"

text \<open>
  Lines 175--215: the disambiguated lexicon and the value of \<^verbatim>\<open>max_disambig\<close> after the
  loop. \<^verbatim>\<open>max_disambig\<close> starts at \<^verbatim>\<open>first_sym - 1\<close>, which is 0.
\<close>

definition add_disambig :: "lexicon_entry list \<Rightarrow> error + (lexicon_entry list \<times> nat)" where
  "add_disambig lexicon =
    (let count = count_transcriptions lexicon;
         prefix_set = all_prefixes lexicon
     in case add_disambig_loop count prefix_set
               \<lparr>max_disambig = 0, reserved_empty = [], last_sym = Map.empty\<rparr> lexicon of
          Inl e \<Rightarrow> Inl e
        | Inr (st, lexicon') \<Rightarrow> Inr (lexicon', max_disambig st))"

text \<open>Lines 217--218: \<^verbatim>\<open>max_disambig += 1; sil_disambig = max_disambig\<close>.\<close>

definition silence_disambig :: "nat \<Rightarrow> nat" where
  "silence_disambig max_disambig_after_loop = max_disambig_after_loop + 1"

subsection \<open>Symbol tables\<close>

text \<open>
  A Python dictionary keeps its keys in insertion order; \<^verbatim>\<open>d[k] = v\<close> replaces the value
  of a key that is present, in place, and appends a new key otherwise.
\<close>

fun dict_set :: "('k \<times> 'v) list \<Rightarrow> 'k \<Rightarrow> 'v \<Rightarrow> ('k \<times> 'v) list" where
  "dict_set [] k v = [(k, v)]"
| "dict_set ((k', v') # d) k v = (if k' = k then (k', v) # d else (k', v') # dict_set d k v)"

text \<open>Lines 224--234, the body of the loop over the silence phones.\<close>

definition add_silence_phone :: "(string \<times> nat) list \<times> nat \<Rightarrow> string \<Rightarrow> (string \<times> nat) list \<times> nat" where
  "add_silence_phone = (\<lambda>(phone_map0, counter0) ph.
     let phone_map1 = dict_set phone_map0 ph counter0;
         counter1 = counter0 + 1;
         phone_map2 = dict_set phone_map1 (ph @ ''_B'') counter1;
         counter2 = counter1 + 1;
         phone_map3 = dict_set phone_map2 (ph @ ''_E'') counter2;
         counter3 = counter2 + 1;
         phone_map4 = dict_set phone_map3 (ph @ ''_S'') counter3;
         counter4 = counter3 + 1;
         phone_map5 = dict_set phone_map4 (ph @ ''_I'') counter4;
         counter5 = counter4 + 1
     in (phone_map5, counter5))"

text \<open>Lines 235--243, the body of the loop over the non-silence phones.\<close>

definition add_nonsilence_phone :: "(string \<times> nat) list \<times> nat \<Rightarrow> string \<Rightarrow> (string \<times> nat) list \<times> nat" where
  "add_nonsilence_phone = (\<lambda>(phone_map0, counter0) ph.
     let phone_map1 = dict_set phone_map0 (ph @ ''_B'') counter0;
         counter1 = counter0 + 1;
         phone_map2 = dict_set phone_map1 (ph @ ''_E'') counter1;
         counter2 = counter1 + 1;
         phone_map3 = dict_set phone_map2 (ph @ ''_S'') counter2;
         counter3 = counter2 + 1;
         phone_map4 = dict_set phone_map3 (ph @ ''_I'') counter3;
         counter4 = counter3 + 1
     in (phone_map4, counter4))"

text \<open>Lines 244--246, the body of the loop over \<^verbatim>\<open>range(max_disambig + 1)\<close>.\<close>

definition add_disambig_phone :: "(string \<times> nat) list \<times> nat \<Rightarrow> nat \<Rightarrow> (string \<times> nat) list \<times> nat" where
  "add_disambig_phone = (\<lambda>(phone_map, counter) i.
     (dict_set phone_map (disambig_symbol i) counter, counter + 1))"

text \<open>Lines 220--246; \<open>max_disambig'\<close> is the value of \<^verbatim>\<open>max_disambig\<close> after line 217.\<close>

definition build_phone_map :: "string list \<Rightarrow> string list \<Rightarrow> nat \<Rightarrow> (string \<times> nat) list" where
  "build_phone_map silence_phones nonsilence_phones max_disambig' =
    (let counter0 = 0;
         phone_map0 = dict_set [] ''<eps>'' counter0;
         counter1 = counter0 + 1;
         (phone_map1, counter2) = foldl add_silence_phone (phone_map0, counter1) silence_phones;
         (phone_map2, counter3) = foldl add_nonsilence_phone (phone_map1, counter2) nonsilence_phones;
         (phone_map3, counter4) = foldl add_disambig_phone (phone_map2, counter3) [0..<max_disambig' + 1]
     in phone_map3)"

text \<open>Lines 266--268, the body of the loop over the sorted words.\<close>

definition add_word :: "(string \<times> nat) list \<times> nat \<Rightarrow> string \<Rightarrow> (string \<times> nat) list \<times> nat" where
  "add_word = (\<lambda>(words_map, counter) w. (dict_set words_map w counter, counter + 1))"

text \<open>
  Lines 259--273. \<^verbatim>\<open>sorted\<close> orders the set of words by code points, the lexicographic
  order of the strings.
\<close>

definition build_words_map :: "lexicon_entry list \<Rightarrow> (string \<times> nat) list" where
  "build_words_map lexicon =
    (let counter0 = 0;
         words_map0 = dict_set [] ''<eps>'' counter0;
         counter1 = counter0 + 1;
         wordlist = set (map fst lexicon);
         (words_map1, counter2) = foldl add_word (words_map0, counter1) (sorted_list_of_set wordlist);
         words_map2 = dict_set words_map1 ''#0'' counter2;
         counter3 = counter2 + 1;
         words_map3 = dict_set words_map2 ''<s>'' counter3;
         counter4 = counter3 + 1;
         words_map4 = dict_set words_map3 ''</s>'' counter4
     in words_map4)"

subsection \<open>The whole function\<close>

text \<open>
  The result of \<^verbatim>\<open>prepare_lexicon\<close>: the two symbol tables, filled from \<^verbatim>\<open>phone_map\<close> and
  \<^verbatim>\<open>words_map\<close> in their order, and the text handed to the transducer compiler, from which
  the returned transducer is compiled. The files written on the way hold the same tables.
\<close>

record prepared =
  isyms :: "(string \<times> nat) list"
  osyms :: "(string \<times> nat) list"
  compiler_text :: "fst_line list"

text \<open>The file object \<^verbatim>\<open>compiler\<close> of line 292.\<close>

definition compiler :: sink where
  "compiler = FileObj 0"

text \<open>
  Lines 149--298, on a lexicon whose pronunciation lists are separate objects; the copy of
  line 164 is the identity on values. \<^verbatim>\<open>sil_disambig\<close> is assigned at line 218 and not
  read again; line 293 passes \<^verbatim>\<open>None\<close> for the silence disambiguation symbol, and 0.5
  for the silence probability. \<^verbatim>\<open>oov\<close> is not used.
\<close>

definition prepare_lexicon ::
  "lexicon_entry list \<Rightarrow> string list \<Rightarrow> string list \<Rightarrow> string \<Rightarrow> string \<Rightarrow> error + prepared" where
  "prepare_lexicon lexicon silence_phones nonsilence_phones optional_silence oov =
    (if \<not> phones_declared lexicon silence_phones nonsilence_phones then Inl AssertionError
     else
       case tag_lexicon lexicon of
         Inl e \<Rightarrow> Inl e
       | Inr tagged \<Rightarrow>
           (case add_disambig tagged of
              Inl e \<Rightarrow> Inl e
            | Inr (lexicon', max_disambig_after_loop) \<Rightarrow>
                let max_disambig = silence_disambig max_disambig_after_loop;
                    sil_disambig = max_disambig;
                    phone_map = build_phone_map silence_phones nonsilence_phones max_disambig;
                    words_map = build_words_map lexicon';
                    (out, err) = write_fst_with_silence lexicon' (1 / 2) optional_silence None compiler
                                   None None
                in case err of
                     Some e \<Rightarrow> Inl e
                   | None \<Rightarrow> Inr \<lparr>isyms = phone_map, osyms = words_map,
                                   compiler_text = written_to compiler out\<rparr>))"

section \<open>The lexicon as objects in a store\<close>

text \<open>
  \<^verbatim>\<open>prepare_lexicon\<close> changes pronunciation lists in place (\<^verbatim>\<open>trans[0] += '_S'\<close>,
  \<^verbatim>\<open>trans.append(...)\<close>). To say what the caller sees afterwards, the pronunciation
  lists are kept in a store: a list object is an address, the index of its contents in
  the store, and a new object gets the next index. Words and weights are immutable, and
  the function never assigns to the outer list or to a tuple, so a lexicon is a list of
  triples of a word, a weight and the address of the pronunciation list.
\<close>

type_synonym store = "string list list"

type_synonym lexicon_ref = "(string \<times> real \<times> nat) list"

definition read_lexicon :: "store \<Rightarrow> lexicon_ref \<Rightarrow> lexicon_entry list" where
  "read_lexicon h lexicon = map (\<lambda>(w, p, a). (w, p, h ! a)) lexicon"

definition addresses :: "lexicon_ref \<Rightarrow> nat list" where
  "addresses lexicon = map (\<lambda>e. snd (snd e)) lexicon"

text \<open>
  Line 164, \<^verbatim>\<open>copy.deepcopy(lexicon)\<close>: every pronunciation list is copied to a new
  object; the memo of \<^verbatim>\<open>deepcopy\<close> maps an object that was copied already to its copy,
  so entries that share a list share the copy.
\<close>

fun deepcopy :: "store \<Rightarrow> (nat \<rightharpoonup> nat) \<Rightarrow> lexicon_ref \<Rightarrow> store \<times> lexicon_ref" where
  "deepcopy h memo [] = (h, [])"
| "deepcopy h memo ((w, p, a) # rest) =
     (case memo a of
        Some a' \<Rightarrow> (fst (deepcopy h memo rest), (w, p, a') # snd (deepcopy h memo rest))
      | None \<Rightarrow>
          (fst (deepcopy (h @ [h ! a]) (memo(a \<mapsto> length h)) rest),
           (w, p, length h) # snd (deepcopy (h @ [h ! a]) (memo(a \<mapsto> length h)) rest)))"

text \<open>The tagging loop of lines 165--173 on the store.\<close>

fun tag_store :: "store \<Rightarrow> lexicon_ref \<Rightarrow> error + store" where
  "tag_store h [] = Inr h"
| "tag_store h ((w, p, a) # rest) =
     (case tag_trans (h ! a) of
        Inl e \<Rightarrow> Inl e
      | Inr tr' \<Rightarrow> tag_store (h[a := tr']) rest)"

text \<open>The assignment loop of lines 196--215 on the store.\<close>

fun add_disambig_store ::
  "(string \<rightharpoonup> nat) \<Rightarrow> string set \<Rightarrow> disambig_state \<Rightarrow> store \<Rightarrow> lexicon_ref \<Rightarrow>
   error + (disambig_state \<times> store)" where
  "add_disambig_store count prefix_set st h [] = Inr (st, h)"
| "add_disambig_store count prefix_set st h ((w, p, a) # rest) =
     (case choose_symbol count prefix_set st (join_sp (h ! a)) of
        Inl e \<Rightarrow> Inl e
      | Inr (st', symb) \<Rightarrow>
          add_disambig_store count prefix_set st' (h[a := append_symbol (h ! a) symb]) rest)"

text \<open>
  \<^verbatim>\<open>prepare_lexicon\<close> on the store: the result, and the store after the call. The
  assertion loop reads the caller's lists; from line 164 on, \<^verbatim>\<open>lexicon\<close> is the copy.
\<close>

definition prepare_lexicon_store ::
  "store \<Rightarrow> lexicon_ref \<Rightarrow> string list \<Rightarrow> string list \<Rightarrow> string \<Rightarrow> string \<Rightarrow>
   error + (store \<times> prepared)" where
  "prepare_lexicon_store h lexicon silence_phones nonsilence_phones optional_silence oov =
    (if \<not> phones_declared (read_lexicon h lexicon) silence_phones nonsilence_phones
     then Inl AssertionError
     else
       let (h1, lexicon1) = deepcopy h Map.empty lexicon
       in case tag_store h1 lexicon1 of
            Inl e \<Rightarrow> Inl e
          | Inr h2 \<Rightarrow>
              let count = count_transcriptions (read_lexicon h2 lexicon1);
                  prefix_set = all_prefixes (read_lexicon h2 lexicon1)
              in case add_disambig_store count prefix_set
                        \<lparr>max_disambig = 0, reserved_empty = [], last_sym = Map.empty\<rparr> h2 lexicon1 of
                   Inl e \<Rightarrow> Inl e
                 | Inr (st, h3) \<Rightarrow>
                     let max_disambig' = silence_disambig (max_disambig st);
                         sil_disambig = max_disambig';
                         phone_map = build_phone_map silence_phones nonsilence_phones max_disambig';
                         words_map = build_words_map (read_lexicon h3 lexicon1);
                         (out, err) = write_fst_with_silence (read_lexicon h3 lexicon1) (1 / 2)
                                        optional_silence None compiler None None
                     in case err of
                          Some e \<Rightarrow> Inl e
                        | None \<Rightarrow> Inr (h3, \<lparr>isyms = phone_map, osyms = words_map,
                                             compiler_text = written_to compiler out\<rparr>))"

section \<open>Notions for the statements and proofs\<close>

text \<open>
  What the tagging loop guarantees and the disambiguation proofs use: the last phone of a
  tagged pronunciation ends in \<open>S\<close> or \<open>E\<close>, every other phone in \<open>B\<close> or \<open>I\<close>.
\<close>

definition tagged_pron :: "string list \<Rightarrow> bool" where
  "tagged_pron t \<longleftrightarrow>
     t \<noteq> [] \<and> last t \<noteq> [] \<and> last (last t) \<in> {CHR ''S'', CHR ''E''}
     \<and> (\<forall>i. Suc i < length t \<longrightarrow> t ! i \<noteq> [] \<and> last (t ! i) \<in> {CHR ''B'', CHR ''I''})"

text \<open>
  The symbols the loop chooses for a list of joined transcriptions, given that no
  \<^verbatim>\<open>KeyError\<close> occurs, and the state after it.
\<close>

fun symbols_from ::
  "(string \<rightharpoonup> nat) \<Rightarrow> string set \<Rightarrow> disambig_state \<Rightarrow> string list \<Rightarrow> disambig_state \<times> nat option list" where
  "symbols_from c ps st [] = (st, [])"
| "symbols_from c ps st (x # xs) =
     (if x \<notin> ps \<and> c x = Some 1
      then (fst (symbols_from c ps st xs), None # snd (symbols_from c ps st xs))
      else (fst (symbols_from c ps (fst (next_symbol st x)) xs),
            Some (snd (next_symbol st x)) # snd (symbols_from c ps (fst (next_symbol st x)) xs)))"

definition with_symbol :: "lexicon_entry \<Rightarrow> nat option \<Rightarrow> lexicon_entry" where
  "with_symbol e s = (fst e, fst (snd e), append_symbol (pron_of e) s)"

text \<open>Every reserved symbol is at most the running maximum.\<close>

definition reserved_bounded :: "disambig_state \<Rightarrow> bool" where
  "reserved_bounded st \<longleftrightarrow> (\<forall>n \<in> set (reserved_empty st). n \<le> max_disambig st)"

text \<open>
  The symbols in the order of the specification: for a silence phone its plain, begin,
  end, singleton and internal forms, for a non-silence phone the last four.
\<close>

definition silence_forms :: "string \<Rightarrow> string list" where
  "silence_forms ph = [ph, ph @ ''_B'', ph @ ''_E'', ph @ ''_S'', ph @ ''_I'']"

definition nonsilence_forms :: "string \<Rightarrow> string list" where
  "nonsilence_forms ph = [ph @ ''_B'', ph @ ''_E'', ph @ ''_S'', ph @ ''_I'']"

definition phone_forms :: "string list \<Rightarrow> string list \<Rightarrow> string list" where
  "phone_forms silence_phones nonsilence_phones =
     concat (map silence_forms silence_phones) @ concat (map nonsilence_forms nonsilence_phones)"

definition phone_symbols :: "string list \<Rightarrow> string list \<Rightarrow> nat \<Rightarrow> string list" where
  "phone_symbols silence_phones nonsilence_phones max_symbol =
     ''<eps>'' # phone_forms silence_phones nonsilence_phones @ map disambig_symbol [0..<max_symbol + 1]"

definition word_symbols :: "lexicon_entry list \<Rightarrow> string list" where
  "word_symbols lexicon =
     ''<eps>'' # sorted_list_of_set (set (map fst lexicon)) @ [''#0'', ''<s>'', ''</s>'']"

section \<open>The per-word chain\<close>

lemma foldl_write_pron_arc:
  "foldl (write_pron_arc file wd c pron) (out, cur, nxt) [0..<n] =
     (out @ map (\<lambda>i. (file, Arc (if i = 0 then cur else nxt + i - 1) (nxt + i) (pron ! i)
                         (if i = 0 then wd else ''<eps>'') (if i = 0 then c else 0))) [0..<n],
      if n = 0 then cur else nxt + n - 1,
      nxt + n)"
proof (induction n)
  case 0
  show ?case by simp
next
  case (Suc n)
  show ?case
    by (simp add: Suc) (simp add: write_pron_arc_def)
qed

lemma write_entry_eq:
  fixes pron :: "string list"
  defines "L \<equiv> length pron"
  shows "write_entry file no_sil_cost sil_cost loop_state sil_state (out, next_state) (wd, weight, pron) =
      (out
       @ map (\<lambda>i. (file, Arc (if i = 0 then loop_state else next_state + i - 1) (next_state + i)
                      (pron ! i) (if i = 0 then wd else ''<eps>'') (if i = 0 then weight else 0)))
           [0..<L - 1]
       @ [(file, Arc (if L \<le> 1 then loop_state else next_state + L - 2) loop_state
                   (if L = 0 then ''<eps>'' else pron ! (L - 1))
                   (if L \<le> 1 then wd else ''<eps>'')
                   (no_sil_cost + (if L \<le> 1 then weight else 0))),
          (file, Arc (if L \<le> 1 then loop_state else next_state + L - 2) sil_state
                   (if L = 0 then ''<eps>'' else pron ! (L - 1))
                   (if L \<le> 1 then wd else ''<eps>'')
                   (sil_cost + (if L \<le> 1 then weight else 0)))],
       next_state + (L - 1))"
proof -
  consider "L = 0" | "L = 1" | "2 \<le> L"
    by linarith
  then show ?thesis
  proof cases
    case 1
    then have "pron = []"
      by (simp add: L_def)
    with 1 show ?thesis
      by (simp add: write_entry_def Let_def)
  next
    case 2
    then obtain x where "pron = [x]"
      by (auto simp: L_def length_Suc_conv)
    with 2 show ?thesis
      by (simp add: write_entry_def Let_def)
  next
    case 3
    then obtain m where m: "L = Suc (Suc m)"
      by (metis Suc_le_D numeral_2_eq_2 Suc_le_mono le0 not0_implies_Suc le_zero_eq)
    then have len: "length pron = Suc (Suc m)"
      by (simp add: L_def)
    have i: "int (Suc (Suc m)) - 1 = int (Suc m)"
      by simp
    show ?thesis
      unfolding m write_entry_def
      by (simp only: len foldl_write_pron_arc prod.case Let_def i diff_Suc_1 nat_int)
        simp
  qed
qed

lemma foldl_write_entry_prefix:
  "\<exists>ys n'. foldl (write_entry file no_sil_cost sil_cost loop_state sil_state) (out, n) lexicon = (out @ ys, n')"
proof (induction lexicon arbitrary: out n)
  case Nil
  show ?case by simp
next
  case (Cons e lexicon)
  obtain wd weight pron where e: "e = (wd, weight, pron)"
    by (cases e)
  obtain xs m where step: "write_entry file no_sil_cost sil_cost loop_state sil_state (out, n) e = (out @ xs, m)"
    unfolding e write_entry_eq by blast
  from Cons [of "out @ xs" m] obtain ys n' where
    "foldl (write_entry file no_sil_cost sil_cost loop_state sil_state) (out @ xs, m) lexicon = (out @ xs @ ys, n')"
    by auto
  with step show ?case
    by auto
qed


section \<open>The silence probability\<close>

lemma foldl_write_entry_prefixD:
  "foldl (write_entry file no_sil_cost sil_cost loop_state sil_state) (out, n) lexicon = (out', n')
    \<Longrightarrow> \<exists>ys. out' = out @ ys"
  using foldl_write_entry_prefix [of "file" no_sil_cost sil_cost loop_state sil_state "out" n lexicon]
  by auto

lemma write_nonterminal_arcs_errors:
  "write_nonterminal_arcs a b c nts lcp = (out, Inl e) \<Longrightarrow> e \<noteq> AssertionError"
  by (cases lcp) (auto simp: write_nonterminal_arcs_def Let_def split: if_splits)

text \<open>
  C8. The emitter fails with the assertion error, having printed nothing, exactly when the
  silence probability is not strictly between 0 and 1. For a probability strictly
  between 0 and 1 the assertion error is not raised, and the first two lines printed are
  the arcs from the start state: to the loop state with cost \<open>- ln (1 - sil_prob)\<close> and to
  the silence state with cost \<open>- ln sil_prob\<close>.
\<close>

theorem write_fst_with_silence_sil_prob:
  "(write_fst_with_silence lexicon sil_prob sil_phone sil_disambig file nonterminals left_context_phones
      = ([], Some AssertionError)) = (\<not> (0 < sil_prob \<and> sil_prob < 1))
   \<and> (0 < sil_prob \<and> sil_prob < 1 \<longrightarrow>
        snd (write_fst_with_silence lexicon sil_prob sil_phone sil_disambig file nonterminals left_context_phones)
          \<noteq> Some AssertionError
        \<and> take 2 (fst (write_fst_with_silence lexicon sil_prob sil_phone sil_disambig file nonterminals
                         left_context_phones))
          = [(file, Arc 0 1 ''<eps>'' ''<eps>'' (- ln (1 - sil_prob))),
             (file, Arc 0 2 ''<eps>'' ''<eps>'' (- ln sil_prob))])"
proof (cases "0 < sil_prob \<and> sil_prob < 1")
  case False
  then have "write_fst_with_silence lexicon sil_prob sil_phone sil_disambig file nonterminals left_context_phones
      = ([], Some AssertionError)"
    unfolding write_fst_with_silence_def by (rule if_P)
  with False show ?thesis
    by auto
next
  case True
  let ?r = "write_fst_with_silence lexicon sil_prob sil_phone sil_disambig file nonterminals left_context_phones"
  have 1: "snd ?r \<noteq> Some AssertionError"
    using True unfolding write_fst_with_silence_def
    by (auto simp: Let_def split: prod.splits option.splits sum.splits
        dest: write_nonterminal_arcs_errors)
  have 2: "take 2 (fst ?r) = [(file, Arc 0 1 ''<eps>'' ''<eps>'' (- ln (1 - sil_prob))),
             (file, Arc 0 2 ''<eps>'' ''<eps>'' (- ln sil_prob))]"
    using True unfolding write_fst_with_silence_def
    by (auto simp: Let_def split: prod.splits option.splits sum.splits
        dest!: foldl_write_entry_prefixD)
  from 2 have "fst ?r \<noteq> []"
    by auto
  then have "?r \<noteq> ([], Some AssertionError)"
    by auto
  with True 1 2 show ?thesis
    by simp
qed

theorem write_fst_with_silence_sil_prob_witness:
  "(0::real) < 1 / 2 \<and> (1 / 2 :: real) < 1
   \<and> snd (write_fst_with_silence [(''a'', 0, [''x_S''])] (1 / 2) ''sil'' None (FileObj 0) None None)
       \<noteq> Some AssertionError
   \<and> take 2 (fst (write_fst_with_silence [(''a'', 0, [''x_S''])] (1 / 2) ''sil'' None (FileObj 0) None None))
       = [(FileObj 0, Arc 0 1 ''<eps>'' ''<eps>'' (- ln (1 - 1 / 2))),
          (FileObj 0, Arc 0 2 ''<eps>'' ''<eps>'' (- ln (1 / 2)))]
   \<and> write_fst_with_silence [(''a'', 0, [''x_S''])] 1 ''sil'' None (FileObj 0) None None
       = ([], Some AssertionError)"
  using write_fst_with_silence_sil_prob [of "[(''a'', 0, [''x_S''])]" "1 / 2" "''sil''" None "FileObj 0" None None]
    write_fst_with_silence_sil_prob [of "[(''a'', 0, [''x_S''])]" 1 "''sil''" None "FileObj 0" None None]
  by simp

section \<open>The arcs of the nonterminal extension\<close>

text \<open>
  C9. For a non-empty list of \<open>n\<close> left-context phones, and \<open>next_state\<close> a state not yet
  in use (above the start and loop states), the emitter returns normally; the arcs that
  leave the shared state (the first state it allocates) are exactly one arc to the loop
  state per left-context phone, each with cost \<open>- ln (1 / n)\<close>, and \<open>exp (- cost)\<close> summed
  over them is 1.
\<close>

theorem write_nonterminal_arcs_stochastic:
  assumes "left_context_phones \<noteq> []"
    and "start_state < next_state" and "loop_state < next_state"
  shows "snd (write_nonterminal_arcs start_state loop_state next_state nonterminals (Some left_context_phones))
           = Inr (next_state + 2)
    \<and> arcs_from next_state
         (fst (write_nonterminal_arcs start_state loop_state next_state nonterminals (Some left_context_phones)))
       = map (\<lambda>p. Arc next_state loop_state p ''<eps>'' (- ln (1 / real (length left_context_phones))))
           left_context_phones
    \<and> (\<Sum>l \<leftarrow> arcs_from next_state
         (fst (write_nonterminal_arcs start_state loop_state next_state nonterminals (Some left_context_phones))).
         exp (- cost l)) = 1"
proof -
  let ?n = "length left_context_phones"
  let ?r = "write_nonterminal_arcs start_state loop_state next_state nonterminals (Some left_context_phones)"
  from assms(1) have n: "?n \<noteq> 0"
    by simp
  have 1: "snd ?r = Inr (next_state + 2)"
    using n by (simp add: write_nonterminal_arcs_def Let_def)
  have f1: "filter (\<lambda>l. case l of Arc s d p w c \<Rightarrow> s = next_state | Final s c \<Rightarrow> False)
      (map (\<lambda>nonterminal. Arc loop_state next_state nonterminal nonterminal 0) nonterminals) = []"
    using assms(3) by (induction nonterminals) auto
  have f2: "filter (\<lambda>l. case l of Arc s d p w c \<Rightarrow> s = next_state | Final s c \<Rightarrow> False)
      (map (\<lambda>p. Arc next_state loop_state p ''<eps>'' x) left_context_phones)
      = map (\<lambda>p. Arc next_state loop_state p ''<eps>'' x) left_context_phones" for x
    by (induction left_context_phones) auto
  have 2: "arcs_from next_state (fst ?r)
       = map (\<lambda>p. Arc next_state loop_state p ''<eps>'' (- ln (1 / real ?n))) left_context_phones"
    using n assms(2,3)
    by (simp add: write_nonterminal_arcs_def Let_def arcs_from_def comp_def f1 f2)
  have "(\<Sum>l \<leftarrow> arcs_from next_state (fst ?r). exp (- cost l))
      = (\<Sum>p \<leftarrow> left_context_phones. exp (ln (1 / real ?n)))"
    unfolding 2 by (simp add: comp_def)
  also have "\<dots> = real ?n * exp (ln (1 / real ?n))"
    by (simp add: sum_list_triv)
  also have "\<dots> = 1"
    using n by simp
  finally have 3: "(\<Sum>l \<leftarrow> arcs_from next_state (fst ?r). exp (- cost l)) = 1" .
  from 1 2 3 show ?thesis
    by blast
qed

theorem write_nonterminal_arcs_stochastic_witness:
  "[''a'', ''b'', ''#nonterm_bos''] \<noteq> [] \<and> (0::nat) < 5 \<and> (1::nat) < 5
   \<and> arcs_from 5 (fst (write_nonterminal_arcs 0 1 5 [''#nonterm:contact_list'']
        (Some [''a'', ''b'', ''#nonterm_bos''])))
     = [Arc 5 1 ''a'' ''<eps>'' (- ln (1 / 3)), Arc 5 1 ''b'' ''<eps>'' (- ln (1 / 3)),
        Arc 5 1 ''#nonterm_bos'' ''<eps>'' (- ln (1 / 3))]
   \<and> (\<Sum>l \<leftarrow> arcs_from 5 (fst (write_nonterminal_arcs 0 1 5 [''#nonterm:contact_list'']
        (Some [''a'', ''b'', ''#nonterm_bos'']))). exp (- cost l)) = 1"
  using write_nonterminal_arcs_stochastic [of "[''a'', ''b'', ''#nonterm_bos'']" 0 5 1 "[''#nonterm:contact_list'']"]
  by simp

section \<open>The stream of the nonterminal extension\<close>

text \<open>
  C7. With nonterminals and left-context phones supplied and a file object other than the
  standard output, the lines of the nonterminal extension are not in the text written to
  the file object: that text holds the silence sub-graph, the word chains and the final
  loop state, and the five lines of the extension are on the standard output.
\<close>

theorem write_fst_with_silence_nonterminal_stream:
  "snd (write_fst_with_silence [(''a'', 0, [''x_S''])] (1 / 2) ''sil'' None (FileObj 0)
          (Some [''#nonterm:contact_list'']) (Some [''x_S''])) = None
   \<and> written_to (FileObj 0) (fst (write_fst_with_silence [(''a'', 0, [''x_S''])] (1 / 2) ''sil'' None (FileObj 0)
          (Some [''#nonterm:contact_list'']) (Some [''x_S''])))
     = [Arc 0 1 ''<eps>'' ''<eps>'' (- ln (1 - 1 / 2)), Arc 0 2 ''<eps>'' ''<eps>'' (- ln (1 / 2)),
        Arc 2 1 ''sil'' ''<eps>'' 0,
        Arc 1 1 ''x_S'' ''a'' (- ln (1 - 1 / 2) + 0), Arc 1 2 ''x_S'' ''a'' (- ln (1 / 2) + 0),
        Final 1 0]
   \<and> written_to Stdout (fst (write_fst_with_silence [(''a'', 0, [''x_S''])] (1 / 2) ''sil'' None (FileObj 0)
          (Some [''#nonterm:contact_list'']) (Some [''x_S''])))
     = [Arc 0 3 ''#nonterm_begin'' ''#nonterm_begin'' 0,
        Arc 1 3 ''#nonterm:contact_list'' ''#nonterm:contact_list'' 0,
        Arc 3 1 ''x_S'' ''<eps>'' (- ln (1 / 1)),
        Arc 1 4 ''#nonterm_end'' ''#nonterm_end'' 0,
        Final 4 0]"
  by (simp add: write_fst_with_silence_def write_entry_def write_nonterminal_arcs_def written_to_def Let_def)

section \<open>Facts about tagging and the disambiguation pass\<close>

subsection \<open>Decimal digits\<close>

lemma digit_char_inj:
  assumes "a < 10" and "b < 10" and "digit_char a = digit_char b"
  shows "a = b"
proof -
  have "distinct ''0123456789''"
    by simp
  moreover have "a < length ''0123456789''" "b < length ''0123456789''"
    using assms by simp_all
  ultimately show ?thesis
    using assms(3) unfolding digit_char_def by (simp only: nth_eq_iff_index_eq)
qed

lemma string_of_nat_not_Nil: "string_of_nat n \<noteq> []"
  by (subst string_of_nat.simps) simp

lemma string_of_nat_inj: "string_of_nat a = string_of_nat b \<Longrightarrow> a = b"
proof (induction a arbitrary: b rule: string_of_nat.induct)
  case (1 n)
  show ?case
  proof (cases "n < 10")
    case True
    with "1.prems" have eq: "[digit_char n] = string_of_nat b"
      by (subst (asm) string_of_nat.simps) simp
    show ?thesis
    proof (cases "b < 10")
      case b: True
      with eq have "digit_char n = digit_char b"
        by (subst (asm) string_of_nat.simps) simp
      with True b show ?thesis
        by (rule digit_char_inj)
    next
      case b: False
      with eq have "[digit_char n] = string_of_nat (b div 10) @ [digit_char (b mod 10)]"
        by (subst (asm) string_of_nat.simps) simp
      then have "string_of_nat (b div 10) = []"
        by simp
      then show ?thesis
        by (simp add: string_of_nat_not_Nil)
    qed
  next
    case False
    with "1.prems" have eq: "string_of_nat (n div 10) @ [digit_char (n mod 10)] = string_of_nat b"
      by (subst (asm) string_of_nat.simps) simp
    show ?thesis
    proof (cases "b < 10")
      case b: True
      with eq have "string_of_nat (n div 10) @ [digit_char (n mod 10)] = [digit_char b]"
        by (subst (asm) (2) string_of_nat.simps) simp
      then have "string_of_nat (n div 10) = []"
        by simp
      then show ?thesis
        by (simp add: string_of_nat_not_Nil)
    next
      case b: False
      with eq have "string_of_nat (n div 10) @ [digit_char (n mod 10)]
          = string_of_nat (b div 10) @ [digit_char (b mod 10)]"
        by (subst (asm) (2) string_of_nat.simps) simp
      then have "string_of_nat (n div 10) = string_of_nat (b div 10)"
        and d: "digit_char (n mod 10) = digit_char (b mod 10)"
        by simp_all
      with False "1.IH" have "n div 10 = b div 10"
        by simp
      moreover from d have "n mod 10 = b mod 10"
        by (intro digit_char_inj) simp_all
      ultimately show ?thesis
        by (metis div_mult_mod_eq)
    qed
  qed
qed

lemma disambig_symbol_inj: "disambig_symbol a = disambig_symbol b \<Longrightarrow> a = b"
  by (simp add: disambig_symbol_def string_of_nat_inj)

lemma distinct_disambig_symbols: "distinct (map disambig_symbol [a..<b])"
  by (simp add: distinct_map inj_on_def disambig_symbol_inj)

subsection \<open>Joined transcriptions\<close>

lemma join_sp_eq_Nil: "join_sp xs = [] \<longleftrightarrow> xs = [] \<or> xs = [[]]"
  by (induction xs rule: join_sp.induct) auto

lemma last_join_sp: "xs \<noteq> [] \<Longrightarrow> last xs \<noteq> [] \<Longrightarrow> last (join_sp xs) = last (last xs)"
proof (induction xs rule: join_sp.induct)
  case 1
  then show ?case by simp
next
  case (2 x)
  then show ?case by simp
next
  case (3 x y ys)
  then have "join_sp (y # ys) \<noteq> []"
    by (auto simp: join_sp_eq_Nil)
  with 3 show ?case
    by simp
qed

subsection \<open>Counts and prefixes\<close>

lemma foldl_count_entry:
  "foldl count_entry c es x =
     (let n = length (filter (\<lambda>e. join_sp (pron_of e) = x) es)
      in case c x of None \<Rightarrow> (if n = 0 then None else Some n) | Some k \<Rightarrow> Some (k + n))"
proof (induction es arbitrary: c)
  case Nil
  show ?case by (simp split: option.splits)
next
  case (Cons e es)
  obtain w p tr where e: "e = (w, p, tr)"
    by (cases e)
  have step: "count_entry c e x =
      (if join_sp (pron_of e) = x then Some (case c x of None \<Rightarrow> 1 | Some k \<Rightarrow> k + 1) else c x)"
    by (simp add: e count_entry_def pron_of_def Let_def split: option.splits)
  show ?case
    by (simp add: Cons step Let_def split: option.splits)
qed

lemma count_transcriptions_eq:
  "count_transcriptions lexicon x =
     (let n = length (filter (\<lambda>e. join_sp (pron_of e) = x) lexicon)
      in if n = 0 then None else Some n)"
  by (simp add: count_transcriptions_def foldl_count_entry)

lemma count_transcriptions_member:
  "e \<in> set lexicon \<Longrightarrow> count_transcriptions lexicon (join_sp (pron_of e)) \<noteq> None"
  by (auto simp: count_transcriptions_eq Let_def filter_empty_conv)

lemma strict_prefix_butlast:
  "t \<noteq> [] \<Longrightarrow> strict_prefix u t \<longleftrightarrow> u = butlast t \<or> strict_prefix u (butlast t)"
proof -
  assume "t \<noteq> []"
  then obtain ys y where t: "t = ys @ [y]"
    by (metis append_butlast_last_id)
  show ?thesis
    unfolding t by (auto simp: strict_prefix_def)
qed

lemma pop_prefixes_eq:
  "pop_prefixes t S = S \<union> {join_sp u | u. strict_prefix u t}"
proof (induction t S rule: pop_prefixes.induct)
  case (1 t S)
  show ?case
  proof (cases "t = []")
    case True
    then show ?thesis
      by (subst pop_prefixes.simps) simp
  next
    case False
    then have "pop_prefixes t S = pop_prefixes (butlast t) (insert (join_sp (butlast t)) S)"
      by (subst pop_prefixes.simps) simp
    also have "\<dots> = insert (join_sp (butlast t)) S \<union> {join_sp u | u. strict_prefix u (butlast t)}"
      using False by (intro "1.IH") simp
    also have "\<dots> = S \<union> {join_sp u | u. strict_prefix u t}"
      using strict_prefix_butlast [OF False] by auto
    finally show ?thesis .
  qed
qed

lemma foldl_pop_prefixes:
  "foldl (\<lambda>S (w, p, tr). pop_prefixes tr S) S es =
     S \<union> {join_sp u | u e. e \<in> set es \<and> strict_prefix u (pron_of e)}"
proof (induction es arbitrary: S)
  case Nil
  show ?case by simp
next
  case (Cons e es)
  obtain w p tr where e: "e = (w, p, tr)"
    by (cases e)
  have "foldl (\<lambda>S (w, p, tr). pop_prefixes tr S) S (e # es)
      = foldl (\<lambda>S (w, p, tr). pop_prefixes tr S) (pop_prefixes (pron_of e) S) es"
    by (simp add: e pron_of_def)
  also have "\<dots> = pop_prefixes (pron_of e) S
      \<union> {join_sp u | u e. e \<in> set es \<and> strict_prefix u (pron_of e)}"
    by (rule Cons)
  also have "\<dots> = S \<union> {join_sp u | u e'. e' \<in> set (e # es) \<and> strict_prefix u (pron_of e')}"
    unfolding pop_prefixes_eq by (auto simp del: split_paired_Ex)
  finally show ?case .
qed

lemma all_prefixes_eq:
  "all_prefixes lexicon = {join_sp u | u e. e \<in> set lexicon \<and> strict_prefix u (pron_of e)}"
  by (simp add: all_prefixes_def foldl_pop_prefixes)

subsection \<open>The shape of tagged pronunciations\<close>

lemma foldl_tag_internal:
  "b \<le> length t \<Longrightarrow>
     length (foldl (\<lambda>t i. t[i := t ! i @ s]) t [a..<b]) = length t
     \<and> (\<forall>i<length t. foldl (\<lambda>t i. t[i := t ! i @ s]) t [a..<b] ! i
            = (if a \<le> i \<and> i < b then t ! i @ s else t ! i))"
proof (induction b)
  case 0
  show ?case by simp
next
  case (Suc b)
  then have IH: "length (foldl (\<lambda>t i. t[i := t ! i @ s]) t [a..<b]) = length t"
    "\<And>i. i < length t \<Longrightarrow> foldl (\<lambda>t i. t[i := t ! i @ s]) t [a..<b] ! i
            = (if a \<le> i \<and> i < b then t ! i @ s else t ! i)"
    by simp_all
  show ?case
  proof (cases "a \<le> b")
    case True
    from Suc.prems have b: "b < length t"
      by simp
    from True have upt: "[a..<Suc b] = [a..<b] @ [b]"
      by simp
    show ?thesis
      unfolding upt using b True by (auto simp: IH nth_list_update)
  next
    case False
    then show ?thesis
      by auto
  qed
qed

lemma tag_trans_nth:
  assumes "tag_trans tr = Inr t"
  shows "tr \<noteq> [] \<and> length t = length tr
    \<and> (\<forall>i<length tr. t ! i = tr ! i @
          (if length tr = 1 then ''_S'' else if i = 0 then ''_B''
           else if Suc i < length tr then ''_I'' else ''_E''))"
proof -
  let ?n = "length tr"
  consider "?n = 0" | "?n = 1" | "?n = 2" | "2 < ?n"
    by linarith
  then show ?thesis
  proof cases
    case 1
    with assms show ?thesis
      by (simp add: tag_trans_def)
  next
    case 2
    with assms have "t = tr[0 := tr ! 0 @ ''_S'']"
      by (simp add: tag_trans_def)
    with 2 show ?thesis
      by auto
  next
    case 3
    with assms have "t = (tr[0 := tr ! 0 @ ''_B''])[Suc 0 := tr ! Suc 0 @ ''_E'']"
      by (simp add: tag_trans_def Let_def)
    with 3 show ?thesis
      by (auto simp: nth_list_update less_Suc_eq numeral_2_eq_2)
  next
    case 4
    define t1 where "t1 = tr[0 := tr ! 0 @ ''_B'']"
    define t2 where "t2 = foldl (\<lambda>t i. t[i := t ! i @ ''_I'']) t1 [1..<?n - 1]"
    have l1: "length t1 = ?n"
      by (simp add: t1_def)
    have "?n - 1 \<le> length t1"
      by (simp add: l1)
    from foldl_tag_internal [OF this, of "''_I''" 1]
    have l2: "length t2 = ?n"
      and n2: "\<And>i. i < ?n \<Longrightarrow> t2 ! i = (if 1 \<le> i \<and> i < ?n - 1 then t1 ! i @ ''_I'' else t1 ! i)"
      by (simp_all add: t2_def l1)
    have l2': "length (foldl (\<lambda>t i. t[i := t ! i @ ''_I'']) (tr[0 := tr ! 0 @ ''_B''])
        [Suc 0..<length tr - Suc 0]) = length tr"
      using l2 by (simp add: t2_def t1_def)
    from assms 4 have t: "t = t2[?n - 1 := t2 ! (?n - 1) @ ''_E'']"
      unfolding tag_trans_def Let_def t2_def t1_def
      by (simp add: l2' split: if_splits)
    have "t ! i = tr ! i @ (if i = 0 then ''_B'' else if Suc i < ?n then ''_I'' else ''_E'')"
      if "i < ?n" for i
      using that 4 unfolding t by (auto simp: nth_list_update l2 n2 t1_def)
    with 4 show ?thesis
      by (auto simp: t l2)
  qed
qed

lemma tag_trans_tagged:
  assumes "tag_trans tr = Inr t"
  shows "tagged_pron t"
proof -
  from tag_trans_nth [OF assms] have ne: "tr \<noteq> []" and len: "length t = length tr"
    and nth: "\<And>i. i < length tr \<Longrightarrow> t ! i = tr ! i @
          (if length tr = 1 then ''_S'' else if i = 0 then ''_B''
           else if Suc i < length tr then ''_I'' else ''_E'')"
    by simp_all
  from ne len have t: "t \<noteq> []"
    by auto
  then have last: "last t = t ! (length tr - 1)"
    by (simp add: last_conv_nth len)
  from ne have pos: "0 < length tr"
    by simp
  then consider "length tr = 1" | "1 < length tr"
    by linarith
  then have "t ! (length tr - 1) = tr ! (length tr - 1) @ (if length tr = 1 then ''_S'' else ''_E'')"
    by cases (subst nth; simp)+
  then have "last t \<noteq> [] \<and> last (last t) \<in> {CHR ''S'', CHR ''E''}"
    unfolding last by simp
  moreover have "t ! i \<noteq> [] \<and> last (t ! i) \<in> {CHR ''B'', CHR ''I''}" if "Suc i < length t" for i
  proof -
    from that len have "t ! i = tr ! i @ (if i = 0 then ''_B'' else ''_I'')"
      by (subst nth) auto
    then show ?thesis
      by simp
  qed
  ultimately show ?thesis
    using t by (simp add: tagged_pron_def)
qed

lemma tag_lexicon_tagged:
  "tag_lexicon lexicon = Inr tagged \<Longrightarrow> e \<in> set tagged \<Longrightarrow> tagged_pron (pron_of e)"
proof (induction lexicon arbitrary: tagged)
  case Nil
  then show ?case by simp
next
  case (Cons a lexicon)
  obtain w p tr where a: "a = (w, p, tr)"
    by (cases a)
  from Cons.prems(1) obtain t rest where t: "tag_trans tr = Inr t"
    and rest: "tag_lexicon lexicon = Inr rest" and tagged: "tagged = (w, p, t) # rest"
    by (auto simp: a split: sum.splits)
  from Cons.prems(2) tagged consider "e = (w, p, t)" | "e \<in> set rest"
    by auto
  then show ?case
  proof cases
    case 1
    with tag_trans_tagged [OF t] show ?thesis
      by (simp add: pron_of_def)
  next
    case 2
    with Cons.IH [OF rest] show ?thesis .
  qed
qed

lemma tagged_join_not_Nil: "tagged_pron t \<Longrightarrow> join_sp t \<noteq> []"
  by (auto simp: tagged_pron_def join_sp_eq_Nil)

lemma tagged_join_last: "tagged_pron t \<Longrightarrow> last (join_sp t) \<in> {CHR ''S'', CHR ''E''}"
  by (simp add: tagged_pron_def last_join_sp)

lemma tagged_prefix_last:
  assumes "tagged_pron t" and "strict_prefix u t" and "u \<noteq> []"
  shows "last u \<noteq> [] \<and> last (last u) \<in> {CHR ''B'', CHR ''I''}"
proof -
  from assms(2) obtain v where t: "t = u @ v" and v: "v \<noteq> []"
    by (auto simp: strict_prefix_def prefix_def)
  from assms(3) have "last u = t ! (length u - 1)"
    by (simp add: t last_conv_nth nth_append)
  moreover from v assms(3) have "Suc (length u - 1) < length t"
    by (cases v) (auto simp: t)
  ultimately show ?thesis
    using assms(1) by (simp add: tagged_pron_def)
qed

lemma tagged_prefix_join:
  assumes "tagged_pron t" and "strict_prefix u t" and "tagged_pron t'"
  shows "join_sp u \<noteq> join_sp t'"
proof (cases "u = []")
  case True
  with tagged_join_not_Nil [OF assms(3)] show ?thesis
    by simp
next
  case False
  from tagged_prefix_last [OF assms(1,2) False]
  have "last (join_sp u) \<in> {CHR ''B'', CHR ''I''}"
    using False by (simp add: last_join_sp)
  with tagged_join_last [OF assms(3)] show ?thesis
    by auto
qed

lemma tagged_not_strict_prefix:
  assumes "tagged_pron t" and "tagged_pron t'"
  shows "\<not> strict_prefix t' t"
proof
  assume "strict_prefix t' t"
  moreover from assms(2) have "t' \<noteq> []"
    by (simp add: tagged_pron_def)
  ultimately have "last (last t') \<in> {CHR ''B'', CHR ''I''}"
    using tagged_prefix_last [OF assms(1)] by blast
  with assms(2) show False
    by (auto simp: tagged_pron_def)
qed

lemma tagged_not_in_prefixes:
  assumes "\<And>e. e \<in> set tagged \<Longrightarrow> tagged_pron (pron_of e)" and "e \<in> set tagged"
  shows "join_sp (pron_of e) \<notin> all_prefixes tagged"
proof
  assume "join_sp (pron_of e) \<in> all_prefixes tagged"
  then obtain u e' where "e' \<in> set tagged" and "strict_prefix u (pron_of e')"
    and "join_sp (pron_of e) = join_sp u"
    unfolding all_prefixes_eq by blast
  with tagged_prefix_join [of "pron_of e'" u "pron_of e"] assms show False
    by auto
qed

subsection \<open>The assignment loop\<close>

lemma length_symbols_from [simp]: "length (snd (symbols_from c ps st xs)) = length xs"
  by (induction xs arbitrary: st) auto

lemma symbols_from_Cons_None:
  "x \<notin> ps \<and> c x = Some 1 \<Longrightarrow>
     symbols_from c ps st (x # xs) =
       (fst (symbols_from c ps st xs), None # snd (symbols_from c ps st xs))"
  by simp

lemma symbols_from_Cons_Some:
  "\<not> (x \<notin> ps \<and> c x = Some 1) \<Longrightarrow>
     symbols_from c ps st (x # xs) =
       (fst (symbols_from c ps (fst (next_symbol st x)) xs),
        Some (snd (next_symbol st x)) # snd (symbols_from c ps (fst (next_symbol st x)) xs))"
  by auto

lemma add_disambig_loop_eq:
  assumes "\<And>e. e \<in> set es \<Longrightarrow> join_sp (pron_of e) \<in> ps \<or> c (join_sp (pron_of e)) \<noteq> None"
  shows "add_disambig_loop c ps st es =
    Inr (fst (symbols_from c ps st (map (\<lambda>e. join_sp (pron_of e)) es)),
         map2 with_symbol es (snd (symbols_from c ps st (map (\<lambda>e. join_sp (pron_of e)) es))))"
  using assms
proof (induction es arbitrary: st)
  case Nil
  show ?case by simp
next
  case (Cons e es)
  obtain w p tr where e: "e = (w, p, tr)"
    by (cases e)
  from Cons.prems [of e] have ok: "join_sp tr \<in> ps \<or> c (join_sp tr) \<noteq> None"
    by (simp add: e pron_of_def)
  have IH: "add_disambig_loop c ps st' es =
    Inr (fst (symbols_from c ps st' (map (\<lambda>e. join_sp (pron_of e)) es)),
         map2 with_symbol es (snd (symbols_from c ps st' (map (\<lambda>e. join_sp (pron_of e)) es))))" for st'
    by (rule Cons.IH) (use Cons.prems in auto)
  show ?case
  proof (cases "join_sp tr \<notin> ps \<and> c (join_sp tr) = Some 1")
    case True
    then show ?thesis
      by (simp add: e choose_symbol_def IH pron_of_def with_symbol_def)
  next
    case False
    with ok show ?thesis
      by (auto simp: e choose_symbol_def IH pron_of_def with_symbol_def split: prod.splits)
  qed
qed

lemma add_disambig_eq:
  "add_disambig lexicon =
    Inr (map2 with_symbol lexicon
           (snd (symbols_from (count_transcriptions lexicon) (all_prefixes lexicon)
                   \<lparr>max_disambig = 0, reserved_empty = [], last_sym = Map.empty\<rparr>
                   (map (\<lambda>e. join_sp (pron_of e)) lexicon))),
         max_disambig (fst (symbols_from (count_transcriptions lexicon) (all_prefixes lexicon)
                   \<lparr>max_disambig = 0, reserved_empty = [], last_sym = Map.empty\<rparr>
                   (map (\<lambda>e. join_sp (pron_of e)) lexicon))))"
proof -
  have "add_disambig_loop (count_transcriptions lexicon) (all_prefixes lexicon) st lexicon =
    Inr (fst (symbols_from (count_transcriptions lexicon) (all_prefixes lexicon) st
                (map (\<lambda>e. join_sp (pron_of e)) lexicon)),
         map2 with_symbol lexicon
           (snd (symbols_from (count_transcriptions lexicon) (all_prefixes lexicon) st
                   (map (\<lambda>e. join_sp (pron_of e)) lexicon))))" for st
    using count_transcriptions_member by (intro add_disambig_loop_eq) blast
  then show ?thesis
    by (simp add: add_disambig_def Let_def)
qed

subsection \<open>Which entries get a symbol\<close>

lemma symbols_from_None:
  "i < length xs \<Longrightarrow>
     snd (symbols_from c ps st xs) ! i = None \<longleftrightarrow> xs ! i \<notin> ps \<and> c (xs ! i) = Some 1"
proof (induction xs arbitrary: st i)
  case Nil
  then show ?case by simp
next
  case (Cons x xs)
  show ?case
  proof (cases i)
    case 0
    then show ?thesis by simp
  next
    case (Suc j)
    with Cons.prems have "j < length xs"
      by simp
    with Suc Cons.IH show ?thesis
      by simp
  qed
qed

subsection \<open>Skipping reserved symbols\<close>

lemma skip_reserved_Nil [simp]: "skip_reserved [] c = c"
  by (subst skip_reserved.simps) simp

lemma skip_reserved_notin: "skip_reserved r c \<notin> set r"
  by (induction r c rule: skip_reserved.induct) (subst skip_reserved.simps, simp)

lemma skip_reserved_ge: "c \<le> skip_reserved r c"
proof (induction r c rule: skip_reserved.induct)
  case (1 r c)
  show ?case
  proof (cases "c \<in> set r")
    case True
    with 1 have "c + 1 \<le> skip_reserved r (c + 1)"
      by simp
    with True show ?thesis
      by (subst skip_reserved.simps) simp
  next
    case False
    then show ?thesis
      by (subst skip_reserved.simps) simp
  qed
qed

subsection \<open>Fresh symbols for empty transcriptions\<close>

lemma next_symbol_props:
  assumes "reserved_bounded st"
  shows "reserved_bounded (fst (next_symbol st x))"
    and "max_disambig st \<le> max_disambig (fst (next_symbol st x))"
    and "set (reserved_empty st) \<subseteq> set (reserved_empty (fst (next_symbol st x)))"
    and "snd (next_symbol st x) \<le> max_disambig (fst (next_symbol st x))"
    and "snd (next_symbol st x) \<notin> set (reserved_empty st)"
    and "1 \<le> snd (next_symbol st x)"
proof -
  show "reserved_bounded (fst (next_symbol st x))"
    using assms by (auto simp: next_symbol_def reserved_bounded_def Let_def)
  show "max_disambig st \<le> max_disambig (fst (next_symbol st x))"
    by (simp add: next_symbol_def Let_def)
  show "set (reserved_empty st) \<subseteq> set (reserved_empty (fst (next_symbol st x)))"
    by (auto simp: next_symbol_def Let_def)
  show "snd (next_symbol st x) \<le> max_disambig (fst (next_symbol st x))"
    by (simp add: next_symbol_def Let_def)
  show "snd (next_symbol st x) \<notin> set (reserved_empty st)"
    using assms by (auto simp: next_symbol_def Let_def skip_reserved_notin reserved_bounded_def)
  have "Suc 0 \<le> c0 \<Longrightarrow> Suc 0 \<le> skip_reserved r c0" for r c0
    using skip_reserved_ge le_trans by blast
  then show "1 \<le> snd (next_symbol st x)"
    by (auto simp: next_symbol_def Let_def split: option.splits)
qed


declare symbols_from.simps(2) [simp del]

lemma symbols_from_bounded:
  "reserved_bounded st \<Longrightarrow> reserved_bounded (fst (symbols_from c ps st xs))"
proof (induction xs arbitrary: st)
  case Nil
  then show ?case by simp
next
  case (Cons x xs)
  show ?case
  proof (cases "x \<notin> ps \<and> c x = Some 1")
    case True
    with Cons show ?thesis
      by (simp add: symbols_from_Cons_None)
  next
    case False
    from Cons.prems have "reserved_bounded (fst (next_symbol st x))"
      by (rule next_symbol_props(1))
    then have "reserved_bounded (fst (symbols_from c ps (fst (next_symbol st x)) xs))"
      by (rule Cons.IH)
    with False show ?thesis
      by (simp add: symbols_from_Cons_Some)
  qed
qed

lemma symbols_from_max_mono:
  "reserved_bounded st \<Longrightarrow> max_disambig st \<le> max_disambig (fst (symbols_from c ps st xs))"
proof (induction xs arbitrary: st)
  case Nil
  then show ?case by simp
next
  case (Cons x xs)
  show ?case
  proof (cases "x \<notin> ps \<and> c x = Some 1")
    case True
    with Cons show ?thesis
      by (simp add: symbols_from_Cons_None)
  next
    case False
    from Cons.prems have b1: "reserved_bounded (fst (next_symbol st x))"
      by (rule next_symbol_props(1))
    from Cons.prems have "max_disambig st \<le> max_disambig (fst (next_symbol st x))"
      by (rule next_symbol_props(2))
    also from b1 have "\<dots> \<le> max_disambig (fst (symbols_from c ps (fst (next_symbol st x)) xs))"
      by (rule Cons.IH)
    finally show ?thesis
      using False by (simp add: symbols_from_Cons_Some)
  qed
qed

lemma symbols_from_range:
  "reserved_bounded st \<Longrightarrow> Some n \<in> set (snd (symbols_from c ps st xs)) \<Longrightarrow>
     1 \<le> n \<and> n \<le> max_disambig (fst (symbols_from c ps st xs)) \<and> n \<notin> set (reserved_empty st)"
proof (induction xs arbitrary: st)
  case Nil
  then show ?case by simp
next
  case (Cons x xs)
  show ?case
  proof (cases "x \<notin> ps \<and> c x = Some 1")
    case True
    with Cons.prems(2) have "Some n \<in> set (snd (symbols_from c ps st xs))"
      by (simp add: symbols_from_Cons_None)
    from Cons.IH [OF Cons.prems(1) this] True show ?thesis
      by (simp add: symbols_from_Cons_None)
  next
    case False
    let ?st1 = "fst (next_symbol st x)"
    from Cons.prems(1) have b1: "reserved_bounded ?st1"
      by (rule next_symbol_props(1))
    from Cons.prems(2) False consider "n = snd (next_symbol st x)"
      | "Some n \<in> set (snd (symbols_from c ps ?st1 xs))"
      by (auto simp: symbols_from_Cons_Some)
    then have "1 \<le> n \<and> n \<le> max_disambig (fst (symbols_from c ps ?st1 xs)) \<and> n \<notin> set (reserved_empty st)"
    proof cases
      case 1
      have "snd (next_symbol st x) \<le> max_disambig ?st1"
        using Cons.prems(1) by (rule next_symbol_props(4))
      also have "\<dots> \<le> max_disambig (fst (symbols_from c ps ?st1 xs))"
        using b1 by (rule symbols_from_max_mono)
      finally show ?thesis
        using 1 next_symbol_props(5,6) [OF Cons.prems(1), of x] by simp
    next
      case 2
      from Cons.IH [OF b1 2] next_symbol_props(3) [OF Cons.prems(1), of x] show ?thesis
        by auto
    qed
    with False show ?thesis
      by (simp add: symbols_from_Cons_Some)
  qed
qed



subsection \<open>Runs of symbols for repeated transcriptions\<close>

lemma next_symbol_nonempty:
  assumes "reserved_empty st = []" and "x \<noteq> []"
  shows "snd (next_symbol st x) = (case last_sym st x of None \<Rightarrow> 0 | Some l \<Rightarrow> l) + 1"
    and "reserved_empty (fst (next_symbol st x)) = []"
    and "last_sym (fst (next_symbol st x)) = (last_sym st)(x \<mapsto> snd (next_symbol st x))"
  using assms by (simp_all add: next_symbol_def Let_def split: option.splits)

lemma symbols_from_group:
  assumes "reserved_empty st = []"
    and "\<And>e. e \<in> set es \<Longrightarrow> join_sp (pron_of e) \<noteq> []"
    and "\<not> (x \<notin> ps \<and> c x = Some 1)"
  shows "map snd (filter (\<lambda>p. join_sp (pron_of (fst p)) = x)
            (zip es (snd (symbols_from c ps st (map (\<lambda>e. join_sp (pron_of e)) es)))))
       = map Some [(case last_sym st x of None \<Rightarrow> 0 | Some l \<Rightarrow> l) + 1 ..<
                   (case last_sym st x of None \<Rightarrow> 0 | Some l \<Rightarrow> l) + 1
                     + length (filter (\<lambda>e. join_sp (pron_of e) = x) es)]"
  using assms(1,2)
proof (induction es arbitrary: st)
  case Nil
  show ?case by simp
next
  case (Cons e es)
  let ?y = "join_sp (pron_of e)"
  let ?f = "\<lambda>e. join_sp (pron_of e)"
  let ?b = "\<lambda>st. (case last_sym st x of None \<Rightarrow> 0 | Some l \<Rightarrow> l)"
  from Cons.prems(2) have y: "?y \<noteq> []" and rest: "\<And>e. e \<in> set es \<Longrightarrow> join_sp (pron_of e) \<noteq> []"
    by simp_all
  show ?case
  proof (cases "?y \<notin> ps \<and> c ?y = Some 1")
    case True
    with assms(3) have "?y \<noteq> x"
      by auto
    with True Cons.IH [OF Cons.prems(1) rest] show ?thesis
      by (simp add: symbols_from_Cons_None)
  next
    case False
    let ?st1 = "fst (next_symbol st ?y)"
    note ns = next_symbol_nonempty [OF Cons.prems(1) y]
    note IH = Cons.IH [OF ns(2) rest]
    show ?thesis
    proof (cases "?y = x")
      case True
      define B where "B = ?b st"
      define K where "K = length (filter (\<lambda>e. join_sp (pron_of e) = x) es)"
      have b1: "?b ?st1 = B + 1"
        using ns(1,3) unfolding True B_def by simp
      have n: "snd (next_symbol st ?y) = B + 1"
        using ns(1) unfolding True B_def by simp
      have "map snd (filter (\<lambda>p. join_sp (pron_of (fst p)) = x)
            (zip (e # es) (snd (symbols_from c ps st (map ?f (e # es))))))
          = Some (snd (next_symbol st ?y)) # map snd (filter (\<lambda>p. join_sp (pron_of (fst p)) = x)
            (zip es (snd (symbols_from c ps ?st1 (map ?f es)))))"
        using False True by (simp add: symbols_from_Cons_Some)
      also have "\<dots> = Some (B + 1) # map Some [B + 1 + 1 ..< B + 1 + 1 + K]"
        by (simp only: IH [unfolded b1, folded K_def] n)
      also have "\<dots> = map Some [B + 1 ..< B + 1 + Suc K]"
        by (simp add: upt_conv_Cons)
      also have "Suc K = length (filter (\<lambda>e. join_sp (pron_of e) = x) (e # es))"
        using True by (simp add: K_def)
      finally show ?thesis
        unfolding B_def .
    next
      case neq: False
      then have "?b ?st1 = ?b st"
        by (simp add: ns(3))
      with False neq IH show ?thesis
        by (simp add: symbols_from_Cons_Some)
    qed
  qed
qed

lemma filter_zip_with_symbol:
  "length ss = length es \<Longrightarrow>
     map (\<lambda>p. pron_of (snd p)) (filter (\<lambda>p. P (fst p)) (zip es (map2 with_symbol es ss)))
       = map (\<lambda>p. append_symbol (pron_of (fst p)) (snd p)) (filter (\<lambda>p. P (fst p)) (zip es ss))"
proof (induction es arbitrary: ss)
  case Nil
  show ?case by simp
next
  case (Cons e es)
  then obtain s ss' where ss: "ss = s # ss'" and len: "length ss' = length es"
    by (cases ss) auto
  from Cons.IH [OF len] show ?case
    by (simp add: ss with_symbol_def pron_of_def)
qed

lemma map_fst_filter_zip:
  "length ss = length es \<Longrightarrow> map fst (filter (\<lambda>p. P (fst p)) (zip es ss)) = filter P es"
proof (induction es arbitrary: ss)
  case Nil
  show ?case by simp
next
  case (Cons e es)
  then obtain s ss' where ss: "ss = s # ss'" and len: "length ss' = length es"
    by (cases ss) auto
  from Cons.IH [OF len] show ?case
    by (simp add: ss)
qed

lemma reserved_bounded_init:
  "reserved_bounded \<lparr>max_disambig = 0, reserved_empty = [], last_sym = Map.empty\<rparr>"
  by (simp add: reserved_bounded_def)

lemma add_disambig_group:
  assumes tagged: "\<And>e. e \<in> set tagged \<Longrightarrow> join_sp (pron_of e) \<noteq> []"
    and k: "k = length (filter (\<lambda>e. join_sp (pron_of e) = x) tagged)" and k2: "2 \<le> k"
  shows "\<exists>dl m. add_disambig tagged = Inr (dl, m) \<and> length dl = length tagged \<and> k \<le> m
        \<and> map (\<lambda>p. pron_of (snd p)) (filter (\<lambda>p. join_sp (pron_of (fst p)) = x) (zip tagged dl))
            = map2 (\<lambda>e j. pron_of e @ [disambig_symbol j])
                (filter (\<lambda>e. join_sp (pron_of e) = x) tagged) [1..<Suc k]"
proof -
  let ?c = "count_transcriptions tagged" and ?ps = "all_prefixes tagged"
  let ?st0 = "\<lparr>max_disambig = 0, reserved_empty = [], last_sym = Map.empty\<rparr>"
  let ?f = "\<lambda>e. join_sp (pron_of e)"
  let ?r = "symbols_from ?c ?ps ?st0 (map ?f tagged)"
  let ?G = "filter (\<lambda>p. ?f (fst p) = x) (zip tagged (snd ?r))"
  have len: "length (snd ?r) = length tagged"
    by simp
  from k k2 have "?c x \<noteq> Some 1"
    by (simp add: count_transcriptions_eq Let_def)
  then have needs: "\<not> (x \<notin> ?ps \<and> ?c x = Some 1)"
    by simp
  have "map snd ?G = map Some [0 + 1 ..< 0 + 1 + k]"
    unfolding k using symbols_from_group [of ?st0 tagged x ?ps ?c, OF _ tagged needs] by simp
  then have snd_G: "map snd ?G = map Some [1..<Suc k]"
    by simp
  have fst_G: "map fst ?G = filter (\<lambda>e. ?f e = x) tagged"
    using len by (rule map_fst_filter_zip)
  have G: "?G = zip (filter (\<lambda>e. ?f e = x) tagged) (map Some [1..<Suc k])"
    using fst_G snd_G by (metis zip_map_fst_snd)
  have "map (\<lambda>p. pron_of (snd p)) (filter (\<lambda>p. ?f (fst p) = x) (zip tagged (map2 with_symbol tagged (snd ?r))))
      = map (\<lambda>p. append_symbol (pron_of (fst p)) (snd p)) ?G"
    using len by (rule filter_zip_with_symbol)
  also have "\<dots> = map2 (\<lambda>e j. pron_of e @ [disambig_symbol j]) (filter (\<lambda>e. ?f e = x) tagged) [1..<Suc k]"
    unfolding G by (simp add: zip_map2 append_symbol_def case_prod_unfold)
  finally have run: "map (\<lambda>p. pron_of (snd p))
        (filter (\<lambda>p. ?f (fst p) = x) (zip tagged (map2 with_symbol tagged (snd ?r))))
      = map2 (\<lambda>e j. pron_of e @ [disambig_symbol j]) (filter (\<lambda>e. ?f e = x) tagged) [1..<Suc k]" .
  from k2 have "Some k \<in> set (map Some [1..<Suc k])"
    by simp
  with snd_G have "Some k \<in> set (map snd ?G)"
    by simp
  then have "Some k \<in> set (snd ?r)"
    by (auto dest: set_zip_rightD)
  with symbols_from_range [OF reserved_bounded_init] have "k \<le> max_disambig (fst ?r)"
    by blast
  with run show ?thesis
    by (simp add: add_disambig_eq)
qed

section \<open>The disambiguation symbols of \<^verbatim>\<open>prepare_lexicon\<close>\<close>

lemma tag_lexicon_join_not_Nil:
  "tag_lexicon lexicon = Inr tagged \<Longrightarrow> e \<in> set tagged \<Longrightarrow> join_sp (pron_of e) \<noteq> []"
  by (rule tagged_join_not_Nil) (rule tag_lexicon_tagged)

lemma append_symbol_eq_iff: "append_symbol t s = t \<longleftrightarrow> s = None"
  by (cases s) (simp_all add: append_symbol_def)

lemma pron_of_with_symbol: "pron_of (with_symbol e s) = append_symbol (pron_of e) s"
  by (simp add: with_symbol_def pron_of_def)

lemma nth_map2_with_symbol:
  "i < length es \<Longrightarrow> length ss = length es \<Longrightarrow> map2 with_symbol es ss ! i = with_symbol (es ! i) (ss ! i)"
  by simp

text \<open>
  C3. When the tagging loop succeeds, the entries whose tagged pronunciations join to the
  same string \<open>x\<close> are \<open>k\<close> in number and \<open>k\<close> is at least 2 (a group of entries that
  share a pronunciation), the disambiguation pass succeeds and the pronunciations of the
  group, in input order, become the tagged pronunciations followed by \<^verbatim>\<open>#1\<close>, ...,
  \<^verbatim>\<open>#k\<close>: \<open>k\<close> distinct symbols, a run of integers from 1; \<open>max_disambig\<close> is at least
  \<open>k\<close> after the pass. For the lexicon \<^verbatim>\<open>[("a", 0.0, ["x"]), ("b", 0.0, ["x"])]\<close> the two
  entries become \<^verbatim>\<open>x_S #1\<close> and \<^verbatim>\<open>x_S #2\<close> and the silence symbol is 3.
\<close>

theorem add_disambig_shared_pronunciation:
  "(\<forall>lexicon tagged x k.
      tag_lexicon lexicon = Inr tagged
      \<and> k = length (filter (\<lambda>e. join_sp (pron_of e) = x) tagged) \<and> 2 \<le> k \<longrightarrow>
      (\<exists>dl m. add_disambig tagged = Inr (dl, m) \<and> length dl = length tagged \<and> k \<le> m
        \<and> map (\<lambda>p. pron_of (snd p)) (filter (\<lambda>p. join_sp (pron_of (fst p)) = x) (zip tagged dl))
            = map2 (\<lambda>e j. pron_of e @ [disambig_symbol j])
                (filter (\<lambda>e. join_sp (pron_of e) = x) tagged) [1..<Suc k]
        \<and> distinct (map disambig_symbol [1..<Suc k])))
   \<and> tag_lexicon [(''a'', 0, [''x'']), (''b'', 0, [''x''])]
       = Inr [(''a'', 0, [''x_S'']), (''b'', 0, [''x_S''])]
   \<and> add_disambig [(''a'', 0, [''x_S'']), (''b'', 0, [''x_S''])]
       = Inr ([(''a'', 0, [''x_S'', ''#1'']), (''b'', 0, [''x_S'', ''#2''])], 2)
   \<and> silence_disambig 2 = 3"
proof -
  have general: "\<exists>dl m. add_disambig tagged = Inr (dl, m) \<and> length dl = length tagged \<and> k \<le> m
        \<and> map (\<lambda>p. pron_of (snd p)) (filter (\<lambda>p. join_sp (pron_of (fst p)) = x) (zip tagged dl))
            = map2 (\<lambda>e j. pron_of e @ [disambig_symbol j])
                (filter (\<lambda>e. join_sp (pron_of e) = x) tagged) [1..<Suc k]
        \<and> distinct (map disambig_symbol [1..<Suc k])"
    if "tag_lexicon lexicon = Inr tagged"
      and "k = length (filter (\<lambda>e. join_sp (pron_of e) = x) tagged)" and "2 \<le> k"
    for lexicon tagged x k
    using add_disambig_group [OF tag_lexicon_join_not_Nil [OF that(1)] that(2,3)]
      distinct_disambig_symbols [of 1 "Suc k"]
    by blast
  have tag: "tag_lexicon [(''a'', 0, [''x'']), (''b'', 0, [''x''])]
       = Inr [(''a'', 0, [''x_S'']), (''b'', 0, [''x_S''])]"
    by (simp add: tag_trans_def)
  have dis: "add_disambig [(''a'', 0, [''x_S'']), (''b'', 0, [''x_S''])]
       = Inr ([(''a'', 0, [''x_S'', ''#1'']), (''b'', 0, [''x_S'', ''#2''])], 2)"
    by (simp add: add_disambig_def count_transcriptions_def count_entry_def all_prefixes_def
        pop_prefixes.simps choose_symbol_def next_symbol_def append_symbol_def disambig_symbol_def
        string_of_nat.simps digit_char_def skip_reserved.simps Let_def)
  have sil: "silence_disambig 2 = 3"
    by (simp add: silence_disambig_def)
  from general tag dis sil show ?thesis
    by blast
qed

theorem add_disambig_shared_pronunciation_witness:
  "tag_lexicon [(''a'', 0, [''x'', ''y'']), (''b'', 0, [''x'']), (''c'', 0, [''x'', ''y'']), (''d'', 0, [''x'', ''y''])]
     = Inr [(''a'', 0, [''x_B'', ''y_E'']), (''b'', 0, [''x_S'']), (''c'', 0, [''x_B'', ''y_E'']),
            (''d'', 0, [''x_B'', ''y_E''])]
   \<and> (3::nat) = length (filter (\<lambda>e. join_sp (pron_of e) = ''x_B y_E'')
        [(''a'', 0::real, [''x_B'', ''y_E'']), (''b'', 0, [''x_S'']), (''c'', 0, [''x_B'', ''y_E'']),
         (''d'', 0, [''x_B'', ''y_E''])])
   \<and> (2::nat) \<le> 3
   \<and> add_disambig [(''a'', 0, [''x_B'', ''y_E'']), (''b'', 0, [''x_S'']), (''c'', 0, [''x_B'', ''y_E'']),
         (''d'', 0, [''x_B'', ''y_E''])]
     = Inr ([(''a'', 0, [''x_B'', ''y_E'', ''#1'']), (''b'', 0, [''x_S'']), (''c'', 0, [''x_B'', ''y_E'', ''#2'']),
             (''d'', 0, [''x_B'', ''y_E'', ''#3''])], 3)
   \<and> distinct (map disambig_symbol [1..<Suc 3])"
proof -
  let ?lex = "[(''a'', 0::real, [''x'', ''y'']), (''b'', 0, [''x'']), (''c'', 0, [''x'', ''y'']), (''d'', 0, [''x'', ''y''])]"
  let ?tagged = "[(''a'', 0::real, [''x_B'', ''y_E'']), (''b'', 0, [''x_S'']), (''c'', 0, [''x_B'', ''y_E'']),
         (''d'', 0, [''x_B'', ''y_E''])]"
  have tag: "tag_lexicon ?lex = Inr ?tagged"
    by (simp add: tag_trans_def Let_def)
  have k: "(3::nat) = length (filter (\<lambda>e. join_sp (pron_of e) = ''x_B y_E'') ?tagged)"
    by (simp add: pron_of_def)
  have dis: "add_disambig ?tagged
     = Inr ([(''a'', 0, [''x_B'', ''y_E'', ''#1'']), (''b'', 0, [''x_S'']), (''c'', 0, [''x_B'', ''y_E'', ''#2'']),
             (''d'', 0, [''x_B'', ''y_E'', ''#3''])], 3)"
    by (simp add: add_disambig_def count_transcriptions_def count_entry_def all_prefixes_def
        pop_prefixes.simps choose_symbol_def next_symbol_def append_symbol_def disambig_symbol_def
        string_of_nat.simps digit_char_def skip_reserved.simps Let_def)
  have prem: "tag_lexicon ?lex = Inr ?tagged
      \<and> 3 = length (filter (\<lambda>e. join_sp (pron_of e) = ''x_B y_E'') ?tagged) \<and> (2::nat) \<le> 3"
    by (intro conjI tag k) simp
  from add_disambig_shared_pronunciation [THEN conjunct1, rule_format, of ?lex ?tagged 3 "''x_B y_E''", OF prem]
  have d: "distinct (map disambig_symbol [1..<Suc 3])"
    by blast
  show ?thesis
    by (intro conjI tag k dis d) simp
qed

text \<open>
  C4. When the tagging loop succeeds, the disambiguation pass succeeds, and it leaves the
  pronunciation of an entry as it is exactly when the joined tagged pronunciation of the
  entry occurs once among the entries and the tagged pronunciation is not a non-empty
  proper prefix of the tagged pronunciation of another entry. (The positional tags rule
  the second out: a tagged pronunciation ends in an \<open>_S\<close> or \<open>_E\<close> phone, which is never
  inside another one.) Otherwise a symbol \<^verbatim>\<open>#n\<close> with \<open>n \<ge> 1\<close> is appended.
\<close>

theorem add_disambig_no_symbol_iff:
  assumes "tag_lexicon lexicon = Inr tagged" and "i < length tagged"
  shows "\<exists>dl m. add_disambig tagged = Inr (dl, m) \<and> length dl = length tagged
    \<and> (pron_of (dl ! i) = pron_of (tagged ! i) \<longleftrightarrow>
         length (filter (\<lambda>e. join_sp (pron_of e) = join_sp (pron_of (tagged ! i))) tagged) = 1
         \<and> \<not> (\<exists>j<length tagged. j \<noteq> i \<and> pron_of (tagged ! i) \<noteq> []
                \<and> strict_prefix (pron_of (tagged ! i)) (pron_of (tagged ! j))))
    \<and> (pron_of (dl ! i) \<noteq> pron_of (tagged ! i) \<longrightarrow>
         (\<exists>n\<ge>1. pron_of (dl ! i) = pron_of (tagged ! i) @ [disambig_symbol n]))"
proof -
  let ?c = "count_transcriptions tagged" and ?ps = "all_prefixes tagged"
  let ?st0 = "\<lparr>max_disambig = 0, reserved_empty = [], last_sym = Map.empty\<rparr>"
  let ?f = "\<lambda>e. join_sp (pron_of e)"
  let ?r = "symbols_from ?c ?ps ?st0 (map ?f tagged)"
  let ?dl = "map2 with_symbol tagged (snd ?r)"
  let ?x = "?f (tagged ! i)"
  have eq: "add_disambig tagged = Inr (?dl, max_disambig (fst ?r))"
    by (rule add_disambig_eq)
  have len: "length ?dl = length tagged"
    by simp
  from assms(2) have pron: "pron_of (?dl ! i) = append_symbol (pron_of (tagged ! i)) (snd ?r ! i)"
    by (simp add: pron_of_with_symbol)
  have tg: "tagged_pron (pron_of e)" if "e \<in> set tagged" for e
    using assms(1) that by (rule tag_lexicon_tagged)
  from assms(2) have mem: "tagged ! i \<in> set tagged"
    by simp
  have notin: "?x \<notin> ?ps"
    using tg mem by (rule tagged_not_in_prefixes)
  have no_prefix: "\<not> strict_prefix (pron_of (tagged ! i)) (pron_of (tagged ! j))" if "j < length tagged" for j
    using tagged_not_strict_prefix [OF tg tg, of "tagged ! j" "tagged ! i"] mem that by simp
  have count: "?c ?x = Some 1 \<longleftrightarrow> length (filter (\<lambda>e. ?f e = ?x) tagged) = 1"
    by (auto simp: count_transcriptions_eq Let_def)
  from assms(2) have "snd ?r ! i = None \<longleftrightarrow> ?x \<notin> ?ps \<and> ?c ?x = Some 1"
    using symbols_from_None [of i "map ?f tagged" ?c ?ps ?st0] by simp
  with notin count have none: "snd ?r ! i = None \<longleftrightarrow> length (filter (\<lambda>e. ?f e = ?x) tagged) = 1"
    by simp
  have 1: "pron_of (?dl ! i) = pron_of (tagged ! i) \<longleftrightarrow>
         length (filter (\<lambda>e. ?f e = ?x) tagged) = 1
         \<and> \<not> (\<exists>j<length tagged. j \<noteq> i \<and> pron_of (tagged ! i) \<noteq> []
                \<and> strict_prefix (pron_of (tagged ! i)) (pron_of (tagged ! j)))"
    using no_prefix by (auto simp: pron append_symbol_eq_iff none)
  have 2: "\<exists>n\<ge>1. pron_of (?dl ! i) = pron_of (tagged ! i) @ [disambig_symbol n]"
    if "pron_of (?dl ! i) \<noteq> pron_of (tagged ! i)"
  proof -
    from that obtain n where n: "snd ?r ! i = Some n"
      by (auto simp: pron append_symbol_eq_iff)
    with assms(2) have "Some n \<in> set (snd ?r)"
      by (metis length_map length_symbols_from nth_mem)
    with symbols_from_range [OF reserved_bounded_init] have "1 \<le> n"
      by blast
    with n show ?thesis
      by (auto simp: pron append_symbol_def)
  qed
  from eq len 1 2 show ?thesis
    by blast
qed

theorem add_disambig_no_symbol_iff_witness:
  "tag_lexicon [(''a'', 0, [''x'', ''y'']), (''b'', 0, [''x'']), (''c'', 0, [''x'', ''y''])]
     = Inr [(''a'', 0, [''x_B'', ''y_E'']), (''b'', 0, [''x_S'']), (''c'', 0, [''x_B'', ''y_E''])]
   \<and> (1::nat) < length [(''a'', 0::real, [''x_B'', ''y_E'']), (''b'', 0::real, [''x_S'']), (''c'', 0::real, [''x_B'', ''y_E''])]
   \<and> add_disambig [(''a'', 0, [''x_B'', ''y_E'']), (''b'', 0, [''x_S'']), (''c'', 0, [''x_B'', ''y_E''])]
     = Inr ([(''a'', 0, [''x_B'', ''y_E'', ''#1'']), (''b'', 0, [''x_S'']), (''c'', 0, [''x_B'', ''y_E'', ''#2''])], 2)
   \<and> length (filter (\<lambda>e. join_sp (pron_of e) = ''x_S'')
        [(''a'', 0::real, [''x_B'', ''y_E'']), (''b'', 0, [''x_S'']), (''c'', 0, [''x_B'', ''y_E''])]) = 1
   \<and> \<not> strict_prefix [''x_S''] [''x_B'', ''y_E'']"
proof -
  let ?lex = "[(''a'', 0::real, [''x'', ''y'']), (''b'', 0, [''x'']), (''c'', 0, [''x'', ''y''])]"
  let ?tagged = "[(''a'', 0::real, [''x_B'', ''y_E'']), (''b'', 0, [''x_S'']), (''c'', 0, [''x_B'', ''y_E''])]"
  have tag: "tag_lexicon ?lex = Inr ?tagged"
    by (simp add: tag_trans_def Let_def)
  have dis: "add_disambig ?tagged
     = Inr ([(''a'', 0, [''x_B'', ''y_E'', ''#1'']), (''b'', 0, [''x_S'']), (''c'', 0, [''x_B'', ''y_E'', ''#2''])], 2)"
    by (simp add: add_disambig_def count_transcriptions_def count_entry_def all_prefixes_def
        pop_prefixes.simps choose_symbol_def next_symbol_def append_symbol_def disambig_symbol_def
        string_of_nat.simps digit_char_def skip_reserved.simps Let_def)
  have i: "(1::nat) < length ?tagged"
    by simp
  from add_disambig_no_symbol_iff [OF tag i]
  have "length (filter (\<lambda>e. join_sp (pron_of e) = ''x_S'') ?tagged) = 1"
    unfolding dis by (simp add: pron_of_def)
  with tag dis show ?thesis
    by simp
qed

section \<open>Empty pronunciations\<close>






section \<open>The symbol tables\<close>

lemma dict_set_append: "k \<notin> fst ` set d \<Longrightarrow> dict_set d k v = d @ [(k, v)]"
  by (induction d) auto

lemma foldl_add_word:
  "distinct (map fst d @ names) \<Longrightarrow>
     foldl add_word (d, c) names = (d @ zip names [c..<c + length names], c + length names)"
proof (induction names arbitrary: d c)
  case Nil
  show ?case by simp
next
  case (Cons k names)
  from Cons.prems have k: "k \<notin> fst ` set d" and d: "distinct (map fst (d @ [(k, c)]) @ names)"
    by auto
  have "foldl add_word (d, c) (k # names) = foldl add_word (d @ [(k, c)], c + 1) names"
    using k by (simp add: add_word_def dict_set_append)
  also have "\<dots> = ((d @ [(k, c)]) @ zip names [c + 1..<c + 1 + length names], c + 1 + length names)"
    using d by (rule Cons.IH)
  also have "\<dots> = (d @ zip (k # names) [c..<c + length (k # names)], c + length (k # names))"
    by (simp add: upt_conv_Cons del: upt_Suc)
  finally show ?case .
qed

lemma foldl_add_silence_phone:
  "foldl add_silence_phone s phs = foldl add_word s (concat (map silence_forms phs))"
proof (induction phs arbitrary: s)
  case Nil
  show ?case by simp
next
  case (Cons ph phs)
  obtain d c where s: "s = (d, c)"
    by (cases s)
  have "add_silence_phone s ph = foldl add_word s (silence_forms ph)"
    by (simp add: s add_silence_phone_def add_word_def silence_forms_def Let_def)
  then show ?case
    by (simp add: Cons)
qed

lemma foldl_add_nonsilence_phone:
  "foldl add_nonsilence_phone s phs = foldl add_word s (concat (map nonsilence_forms phs))"
proof (induction phs arbitrary: s)
  case Nil
  show ?case by simp
next
  case (Cons ph phs)
  obtain d c where s: "s = (d, c)"
    by (cases s)
  have "add_nonsilence_phone s ph = foldl add_word s (nonsilence_forms ph)"
    by (simp add: s add_nonsilence_phone_def add_word_def nonsilence_forms_def Let_def)
  then show ?case
    by (simp add: Cons)
qed

lemma foldl_add_disambig_phone:
  "foldl add_disambig_phone s ns = foldl add_word s (map disambig_symbol ns)"
proof (induction ns arbitrary: s)
  case Nil
  show ?case by simp
next
  case (Cons n ns)
  obtain d c where s: "s = (d, c)"
    by (cases s)
  have "add_disambig_phone s n = add_word s (disambig_symbol n)"
    by (simp add: s add_disambig_phone_def add_word_def)
  then show ?case
    by (simp add: Cons)
qed

lemma add_word_pair: "add_word (d, c) w = (dict_set d w c, c + 1)"
  by (simp add: add_word_def)

lemma build_phone_map_eq:
  "build_phone_map silence_phones nonsilence_phones m =
     fst (foldl add_word ([], 0) (phone_symbols silence_phones nonsilence_phones m))"
  by (simp add: build_phone_map_def Let_def case_prod_unfold phone_symbols_def phone_forms_def
      foldl_add_silence_phone foldl_add_nonsilence_phone foldl_add_disambig_phone add_word_pair
      del: upt_Suc)

lemma build_words_map_eq:
  "build_words_map lexicon = fst (foldl add_word ([], 0) (word_symbols lexicon))"
  by (simp add: build_words_map_def Let_def word_symbols_def case_prod_unfold add_word_def)

lemma build_phone_map_distinct:
  assumes "distinct (phone_symbols silence_phones nonsilence_phones m)"
  shows "build_phone_map silence_phones nonsilence_phones m =
     zip (phone_symbols silence_phones nonsilence_phones m)
       [0..<length (phone_symbols silence_phones nonsilence_phones m)]"
  using foldl_add_word [of "[]" "phone_symbols silence_phones nonsilence_phones m" 0] assms
  by (simp add: build_phone_map_eq)

lemma build_words_map_distinct:
  assumes "distinct (word_symbols lexicon)"
  shows "build_words_map lexicon = zip (word_symbols lexicon) [0..<length (word_symbols lexicon)]"
  using foldl_add_word [of "[]" "word_symbols lexicon" 0] assms
  by (simp add: build_words_map_eq)

lemma write_fst_with_silence_half:
  "snd (write_fst_with_silence lexicon (1 / 2) sil_phone None file None None) = None"
  by (simp add: write_fst_with_silence_def Let_def case_prod_unfold)

lemma tag_lexicon_words: "tag_lexicon lexicon = Inr tagged \<Longrightarrow> map fst tagged = map fst lexicon"
proof (induction lexicon arbitrary: tagged)
  case Nil
  then show ?case by simp
next
  case (Cons a lexicon)
  obtain w p tr where a: "a = (w, p, tr)"
    by (cases a)
  from Cons.prems obtain t rest where "tag_lexicon lexicon = Inr rest" and "tagged = (w, p, t) # rest"
    by (auto simp: a split: sum.splits)
  with Cons.IH show ?case
    by (simp add: a)
qed

lemma map_fst_map2_with_symbol:
  "length ss = length es \<Longrightarrow> map fst (map2 with_symbol es ss) = map fst es"
proof (induction es arbitrary: ss)
  case Nil
  show ?case by simp
next
  case (Cons e es)
  then obtain s ss' where "ss = s # ss'" and "length ss' = length es"
    by (cases ss) auto
  with Cons.IH show ?case
    by (simp add: with_symbol_def)
qed

lemma add_disambig_words:
  assumes "add_disambig lexicon = Inr (dl, m)"
  shows "map fst dl = map fst lexicon"
proof -
  from assms obtain ss where "dl = map2 with_symbol lexicon ss" and "length ss = length lexicon"
    unfolding add_disambig_eq by (metis Inr_inject Pair_inject length_map length_symbols_from)
  then show ?thesis
    by (simp only: map_fst_map2_with_symbol)
qed

lemma prepare_lexicon_Inr:
  assumes "prepare_lexicon lexicon silence_phones nonsilence_phones optional_silence oov = Inr r"
  shows "\<exists>tagged dl m. tag_lexicon lexicon = Inr tagged \<and> add_disambig tagged = Inr (dl, m)
    \<and> isyms r = build_phone_map silence_phones nonsilence_phones (silence_disambig m)
    \<and> osyms r = build_words_map dl
    \<and> compiler_text r = written_to compiler
         (fst (write_fst_with_silence dl (1 / 2) optional_silence None compiler None None))"
  using assms unfolding prepare_lexicon_def
  by (auto simp: Let_def split: if_splits sum.splits prod.splits option.splits)

lemma take1_disambig_symbol: "take 1 (disambig_symbol n) = ''#''"
  by (simp add: disambig_symbol_def)

lemma distinct_phone_symbols:
  assumes "distinct (''<eps>'' # phone_forms silence_phones nonsilence_phones)"
    and "list_all (\<lambda>s. take 1 s \<noteq> ''#'') (phone_forms silence_phones nonsilence_phones)"
  shows "distinct (phone_symbols silence_phones nonsilence_phones m)"
proof -
  let ?forms = "phone_forms silence_phones nonsilence_phones"
  have "disambig_symbol n \<notin> set (''<eps>'' # ?forms)" for n
  proof
    assume "disambig_symbol n \<in> set (''<eps>'' # ?forms)"
    then consider "disambig_symbol n = ''<eps>''" | "disambig_symbol n \<in> set ?forms"
      by auto
    then show False
    proof cases
      case 1
      then have "take 1 (disambig_symbol n) = take 1 ''<eps>''"
        by simp
      then show False
        unfolding take1_disambig_symbol by simp
    next
      case 2
      with assms(2) have "take 1 (disambig_symbol n) \<noteq> ''#''"
        by (simp add: list_all_iff)
      then show False
        unfolding take1_disambig_symbol by simp
    qed
  qed
  then have "x \<notin> set (''<eps>'' # ?forms)" if "x \<in> set (map disambig_symbol [0..<m + 1])" for x
    using that by (metis imageE list.set_map)
  then have "set (''<eps>'' # ?forms) \<inter> set (map disambig_symbol [0..<m + 1]) = {}"
    by blast
  with assms(1) distinct_disambig_symbols [of 0 "m + 1"]
  have "distinct ((''<eps>'' # ?forms) @ map disambig_symbol [0..<m + 1])"
    by (simp only: distinct_append)
  then show ?thesis
    by (simp add: phone_symbols_def)
qed

lemma distinct_word_symbols:
  assumes "list_all (\<lambda>e. fst e \<notin> {''<eps>'', ''#0'', ''<s>'', ''</s>''}) lexicon"
  shows "distinct (word_symbols lexicon)"
  using assms by (auto simp: word_symbols_def list_all_iff)

text \<open>
  C6, as the code has it. When the symbols to register are pairwise distinct, that is the
  epsilon and the forms of the phones are distinct, no form starts with \<^verbatim>\<open>#\<close>, and no
  word of the lexicon is \<^verbatim>\<open><eps>\<close>, \<^verbatim>\<open>#0\<close>, \<^verbatim>\<open><s>\<close> or \<^verbatim>\<open></s>\<close>, a successful
  \<^verbatim>\<open>prepare_lexicon\<close> returns the phone table that gives the ids 0, 1, 2, ... to
  \<^verbatim>\<open><eps>\<close>, the five forms of each silence phone, the four forms of each non-silence
  phone and \<^verbatim>\<open>#0\<close>, ..., \<^verbatim>\<open>#s\<close> in this order, where \<open>s\<close> is the silence symbol (the value
  of \<^verbatim>\<open>max_disambig\<close> after line 217: one more than the maximum after the assignment
  loop), and the word table that gives the ids 0, 1, 2, ... to \<^verbatim>\<open><eps>\<close>, the distinct
  words in sorted order, \<^verbatim>\<open>#0\<close>, \<^verbatim>\<open><s>\<close> and \<^verbatim>\<open></s>\<close>.
\<close>

theorem symbol_tables_contiguous:
  assumes "prepare_lexicon lexicon silence_phones nonsilence_phones optional_silence oov = Inr r"
    and "distinct (''<eps>'' # phone_forms silence_phones nonsilence_phones)"
    and "list_all (\<lambda>s. take 1 s \<noteq> ''#'') (phone_forms silence_phones nonsilence_phones)"
    and "list_all (\<lambda>e. fst e \<notin> {''<eps>'', ''#0'', ''<s>'', ''</s>''}) lexicon"
  shows "\<exists>tagged dl m. tag_lexicon lexicon = Inr tagged \<and> add_disambig tagged = Inr (dl, m)
    \<and> isyms r = zip (phone_symbols silence_phones nonsilence_phones (silence_disambig m))
                  [0..<length (phone_symbols silence_phones nonsilence_phones (silence_disambig m))]
    \<and> osyms r = zip (word_symbols lexicon) [0..<length (word_symbols lexicon)]"
proof -
  from prepare_lexicon_Inr [OF assms(1)] obtain tagged dl m where
    tag: "tag_lexicon lexicon = Inr tagged" and dis: "add_disambig tagged = Inr (dl, m)"
    and i: "isyms r = build_phone_map silence_phones nonsilence_phones (silence_disambig m)"
    and o: "osyms r = build_words_map dl"
    by blast
  from tag dis have "map fst dl = map fst lexicon"
    by (simp add: tag_lexicon_words add_disambig_words)
  then have words: "word_symbols dl = word_symbols lexicon"
    by (simp add: word_symbols_def)
  have "distinct (word_symbols lexicon)"
    using assms(4) by (rule distinct_word_symbols)
  with words have "osyms r = zip (word_symbols lexicon) [0..<length (word_symbols lexicon)]"
    by (simp add: o build_words_map_distinct)
  moreover have "isyms r = zip (phone_symbols silence_phones nonsilence_phones (silence_disambig m))
                  [0..<length (phone_symbols silence_phones nonsilence_phones (silence_disambig m))]"
    unfolding i using assms(2,3) by (intro build_phone_map_distinct distinct_phone_symbols)
  ultimately show ?thesis
    using tag dis by blast
qed

lemmas eval_defs =
  prepare_lexicon_def phones_declared_def tag_trans_def
  add_disambig_def count_transcriptions_def count_entry_def all_prefixes_def
  pop_prefixes.simps choose_symbol_def next_symbol_def append_symbol_def disambig_symbol_def
  string_of_nat.simps digit_char_def skip_reserved.simps silence_disambig_def
  build_phone_map_def add_silence_phone_def add_nonsilence_phone_def add_disambig_phone_def
  build_words_map_def add_word_def sorted_list_of_set_sort_remdups
  write_fst_with_silence_def write_entry_def write_pron_arc_def written_to_def compiler_def

lemma prepare_lexicon_two_words:
  "prepare_lexicon [(''a'', 0, [''x'']), (''b'', 0, [''x''])] [''sil''] [''x''] ''sil'' ''<unk>'' =
     Inr \<lparr>isyms = [(''<eps>'', 0), (''sil'', 1), (''sil_B'', 2), (''sil_E'', 3), (''sil_S'', 4),
                    (''sil_I'', 5), (''x_B'', 6), (''x_E'', 7), (''x_S'', 8), (''x_I'', 9),
                    (''#0'', 10), (''#1'', 11), (''#2'', 12), (''#3'', 13)],
          osyms = [(''<eps>'', 0), (''a'', 1), (''b'', 2), (''#0'', 3), (''<s>'', 4), (''</s>'', 5)],
          compiler_text =
            [Arc 0 1 ''<eps>'' ''<eps>'' (- ln (1 - 1 / 2)), Arc 0 2 ''<eps>'' ''<eps>'' (- ln (1 / 2)),
             Arc 2 1 ''sil'' ''<eps>'' 0,
             Arc 1 3 ''x_S'' ''a'' 0,
             Arc 3 1 ''#1'' ''<eps>'' (- ln (1 - 1 / 2) + 0), Arc 3 2 ''#1'' ''<eps>'' (- ln (1 / 2) + 0),
             Arc 1 4 ''x_S'' ''b'' 0,
             Arc 4 1 ''#2'' ''<eps>'' (- ln (1 - 1 / 2) + 0), Arc 4 2 ''#2'' ''<eps>'' (- ln (1 / 2) + 0),
             Final 1 0]\<rparr>"
  by (simp add: eval_defs Let_def)

lemma prepare_lexicon_sentence_start_word:
  "prepare_lexicon [(''<s>'', 0, [''x''])] [''sil''] [''x''] ''sil'' ''<unk>'' =
     Inr \<lparr>isyms = [(''<eps>'', 0), (''sil'', 1), (''sil_B'', 2), (''sil_E'', 3), (''sil_S'', 4),
                    (''sil_I'', 5), (''x_B'', 6), (''x_E'', 7), (''x_S'', 8), (''x_I'', 9),
                    (''#0'', 10), (''#1'', 11)],
          osyms = [(''<eps>'', 0), (''<s>'', 3), (''#0'', 2), (''</s>'', 4)],
          compiler_text =
            [Arc 0 1 ''<eps>'' ''<eps>'' (- ln (1 - 1 / 2)), Arc 0 2 ''<eps>'' ''<eps>'' (- ln (1 / 2)),
             Arc 2 1 ''sil'' ''<eps>'' 0,
             Arc 1 1 ''x_S'' ''<s>'' (- ln (1 - 1 / 2) + 0), Arc 1 2 ''x_S'' ''<s>'' (- ln (1 / 2) + 0),
             Final 1 0]\<rparr>"
  by (simp add: eval_defs Let_def)

theorem symbol_tables_contiguous_witness:
  "distinct (''<eps>'' # phone_forms [''sil''] [''x''])
   \<and> list_all (\<lambda>s. take 1 s \<noteq> ''#'') (phone_forms [''sil''] [''x''])
   \<and> list_all (\<lambda>e. fst e \<notin> {''<eps>'', ''#0'', ''<s>'', ''</s>''}) [(''a'', 0::real, [''x'']), (''b'', 0, [''x''])]
   \<and> map_sum id isyms (prepare_lexicon [(''a'', 0, [''x'']), (''b'', 0, [''x''])] [''sil''] [''x''] ''sil'' ''<unk>'')
       = Inr (zip (phone_symbols [''sil''] [''x''] 3) [0..<14])
   \<and> map_sum id osyms (prepare_lexicon [(''a'', 0, [''x'']), (''b'', 0, [''x''])] [''sil''] [''x''] ''sil'' ''<unk>'')
       = Inr (zip [''<eps>'', ''a'', ''b'', ''#0'', ''<s>'', ''</s>''] [0..<6])"
proof -
  let ?lex = "[(''a'', 0::real, [''x'']), (''b'', 0, [''x''])]"
  obtain r where r: "prepare_lexicon ?lex [''sil''] [''x''] ''sil'' ''<unk>'' = Inr r"
    using prepare_lexicon_two_words by blast
  have h1: "distinct (''<eps>'' # phone_forms [''sil''] [''x''])"
    by (simp add: phone_forms_def silence_forms_def nonsilence_forms_def)
  have h2: "list_all (\<lambda>s. take 1 s \<noteq> ''#'') (phone_forms [''sil''] [''x''])"
    by (simp add: phone_forms_def silence_forms_def nonsilence_forms_def)
  have h3: "list_all (\<lambda>e. fst e \<notin> {''<eps>'', ''#0'', ''<s>'', ''</s>''}) ?lex"
    by simp
  have tag: "tag_lexicon ?lex = Inr [(''a'', 0, [''x_S'']), (''b'', 0, [''x_S''])]"
    by (simp add: tag_trans_def)
  have dis: "add_disambig [(''a'', 0, [''x_S'']), (''b'', 0, [''x_S''])]
       = Inr ([(''a'', 0, [''x_S'', ''#1'']), (''b'', 0, [''x_S'', ''#2''])], 2)"
    by (simp add: eval_defs Let_def)
  from symbol_tables_contiguous [OF r h1 h2 h3] obtain m where
    "add_disambig [(''a'', 0, [''x_S'']), (''b'', 0, [''x_S''])]
       = Inr ([(''a'', 0, [''x_S'', ''#1'']), (''b'', 0, [''x_S'', ''#2''])], m)"
    and i: "isyms r = zip (phone_symbols [''sil''] [''x''] (silence_disambig m))
                  [0..<length (phone_symbols [''sil''] [''x''] (silence_disambig m))]"
    and o: "osyms r = zip (word_symbols ?lex) [0..<length (word_symbols ?lex)]"
    unfolding tag by (auto simp: dis)
  then have m: "m = 2"
    by (simp add: dis)
  have len: "length (phone_symbols [''sil''] [''x''] 3) = 14"
    by (simp add: phone_symbols_def phone_forms_def silence_forms_def nonsilence_forms_def)
  have ws: "word_symbols ?lex = [''<eps>'', ''a'', ''b'', ''#0'', ''<s>'', ''</s>'']"
    by (simp add: word_symbols_def sorted_list_of_set_sort_remdups)
  have s3: "silence_disambig 2 = 3"
    by (simp add: silence_disambig_def)
  from i have "isyms r = zip (phone_symbols [''sil''] [''x''] 3) [0..<14]"
    unfolding m s3 len .
  moreover have l6: "length [''<eps>'', ''a'', ''b'', ''#0'', ''<s>'', ''</s>''] = 6"
    by simp
  from o have "osyms r = zip [''<eps>'', ''a'', ''b'', ''#0'', ''<s>'', ''</s>''] [0..<6]"
    unfolding ws l6 .
  ultimately show ?thesis
    using h1 h2 h3 by (simp only: r map_sum.simps id_apply)
qed

text \<open>
  C6 as stated fails when a symbol is registered twice: the second assignment replaces
  the id of the key in place. With the word \<^verbatim>\<open><s>\<close> in the lexicon the word table has
  no id 1, and \<^verbatim>\<open><s>\<close> carries 3 in front of \<^verbatim>\<open>#0\<close> with 2.
\<close>

theorem symbol_tables_counterexample:
  "map_sum id osyms (prepare_lexicon [(''<s>'', 0, [''x''])] [''sil''] [''x''] ''sil'' ''<unk>'')
     = Inr [(''<eps>'', 0), (''<s>'', 3), (''#0'', 2), (''</s>'', 4)]"
  by (simp add: prepare_lexicon_sentence_start_word)

section \<open>The silence branch of \<^verbatim>\<open>prepare_lexicon\<close>\<close>

text \<open>
  C1. For the lexicon \<^verbatim>\<open>[("a", 0.0, ["x"]), ("b", 0.0, ["x"])]\<close> the maximum after the
  assignment loop is 2 and the silence symbol is 3; \<^verbatim>\<open>#3\<close> is in the phone table. The
  text handed to the compiler has one arc out of the silence state 2, straight to the
  loop state 1 with the silence phone, and no arc carries \<^verbatim>\<open>#3\<close>: line 293 passes
  \<^verbatim>\<open>None\<close> where the emitter takes the silence disambiguation symbol.
\<close>

theorem prepare_lexicon_silence_branch:
  "add_disambig [(''a'', 0, [''x_S'']), (''b'', 0, [''x_S''])]
       = Inr ([(''a'', 0, [''x_S'', ''#1'']), (''b'', 0, [''x_S'', ''#2''])], 2)
   \<and> silence_disambig 2 = 3
   \<and> map_sum id (\<lambda>r. filter (\<lambda>p. fst p = disambig_symbol 3) (isyms r))
        (prepare_lexicon [(''a'', 0, [''x'']), (''b'', 0, [''x''])] [''sil''] [''x''] ''sil'' ''<unk>'')
       = Inr [(''#3'', 13)]
   \<and> map_sum id compiler_text
        (prepare_lexicon [(''a'', 0, [''x'']), (''b'', 0, [''x''])] [''sil''] [''x''] ''sil'' ''<unk>'')
       = Inr [Arc 0 1 ''<eps>'' ''<eps>'' (- ln (1 - 1 / 2)), Arc 0 2 ''<eps>'' ''<eps>'' (- ln (1 / 2)),
              Arc 2 1 ''sil'' ''<eps>'' 0,
              Arc 1 3 ''x_S'' ''a'' 0,
              Arc 3 1 ''#1'' ''<eps>'' (- ln (1 - 1 / 2) + 0), Arc 3 2 ''#1'' ''<eps>'' (- ln (1 / 2) + 0),
              Arc 1 4 ''x_S'' ''b'' 0,
              Arc 4 1 ''#2'' ''<eps>'' (- ln (1 - 1 / 2) + 0), Arc 4 2 ''#2'' ''<eps>'' (- ln (1 / 2) + 0),
              Final 1 0]"
proof -
  have dis: "add_disambig [(''a'', 0, [''x_S'']), (''b'', 0, [''x_S''])]
       = Inr ([(''a'', 0, [''x_S'', ''#1'']), (''b'', 0, [''x_S'', ''#2''])], 2)"
    by (simp add: eval_defs Let_def)
  have sil: "silence_disambig 2 = 3"
    by (simp add: silence_disambig_def)
  have sym: "disambig_symbol 3 = ''#3''"
    by (simp add: disambig_symbol_def string_of_nat.simps digit_char_def)
  show ?thesis
    unfolding prepare_lexicon_two_words sym by (simp add: dis sil)
qed

section \<open>The caller's lexicon\<close>

subsection \<open>The caller's objects are not written\<close>

lemma deepcopy_frame:
  assumes "n \<le> length h" and "\<And>a a'. memo a = Some a' \<Longrightarrow> n \<le> a'"
  shows "take n (fst (deepcopy h memo lexicon)) = take n h
    \<and> length h \<le> length (fst (deepcopy h memo lexicon))
    \<and> (\<forall>a \<in> set (addresses (snd (deepcopy h memo lexicon))). n \<le> a)"
  using assms
proof (induction lexicon arbitrary: h memo)
  case Nil
  show ?case by (simp add: addresses_def)
next
  case (Cons e lexicon)
  obtain w p a where e: "e = (w, p, a)"
    by (cases e)
  show ?case
  proof (cases "memo a")
    case (Some a')
    with Cons.prems(2) have "n \<le> a'"
      by simp
    with Cons.IH [OF Cons.prems] Some show ?thesis
      by (simp add: e addresses_def)
  next
    case None
    let ?h = "h @ [h ! a]" and ?memo = "memo(a \<mapsto> length h)"
    have 1: "n \<le> length ?h"
      using Cons.prems(1) by simp
    have 2: "n \<le> a'" if "?memo b = Some a'" for b a'
      using that Cons.prems by (auto split: if_splits)
    have IH: "take n (fst (deepcopy ?h ?memo lexicon)) = take n ?h
      \<and> length ?h \<le> length (fst (deepcopy ?h ?memo lexicon))
      \<and> (\<forall>a \<in> set (addresses (snd (deepcopy ?h ?memo lexicon))). n \<le> a)"
      using 1 2 by (rule Cons.IH)
    have eq: "deepcopy h memo (e # lexicon)
        = (fst (deepcopy ?h ?memo lexicon), (w, p, length h) # snd (deepcopy ?h ?memo lexicon))"
      using None by (simp add: e)
    from IH Cons.prems(1) show ?thesis
      unfolding eq by (simp add: addresses_def)
  qed
qed

lemma tag_store_frame:
  "tag_store h lexicon = Inr h' \<Longrightarrow> \<forall>a \<in> set (addresses lexicon). n \<le> a \<Longrightarrow>
     take n h' = take n h \<and> length h' = length h"
proof (induction lexicon arbitrary: h)
  case Nil
  then show ?case by simp
next
  case (Cons e lexicon)
  obtain w p a where e: "e = (w, p, a)"
    by (cases e)
  from Cons.prems(1) obtain t where t: "tag_trans (h ! a) = Inr t"
    and rest: "tag_store (h[a := t]) lexicon = Inr h'"
    by (auto simp: e split: sum.splits)
  from Cons.prems(2) have a: "n \<le> a" and others: "\<forall>a \<in> set (addresses lexicon). n \<le> a"
    by (simp_all add: e addresses_def)
  from Cons.IH [OF rest others] a show ?case
    by simp
qed

lemma add_disambig_store_frame:
  "add_disambig_store c ps st h lexicon = Inr (st', h') \<Longrightarrow> \<forall>a \<in> set (addresses lexicon). n \<le> a \<Longrightarrow>
     take n h' = take n h \<and> length h' = length h"
proof (induction lexicon arbitrary: h st)
  case Nil
  then show ?case by simp
next
  case (Cons e lexicon)
  obtain w p a where e: "e = (w, p, a)"
    by (cases e)
  from Cons.prems(1) obtain st1 s where
    rest: "add_disambig_store c ps st1 (h[a := append_symbol (h ! a) s]) lexicon = Inr (st', h')"
    by (auto simp: e split: sum.splits prod.splits)
  from Cons.prems(2) have a: "n \<le> a" and others: "\<forall>a \<in> set (addresses lexicon). n \<le> a"
    by (simp_all add: e addresses_def)
  from Cons.IH [OF rest others] a show ?case
    by simp
qed

lemma read_lexicon_take:
  assumes "take n h' = take n h" and "list_all (\<lambda>a. a < n) (addresses lexicon)"
  shows "read_lexicon h' lexicon = read_lexicon h lexicon"
proof -
  have "h' ! a = h ! a" if "a < n" for a
    using that assms(1) by (metis nth_take)
  with assms(2) show ?thesis
    by (auto simp: read_lexicon_def addresses_def list_all_iff)
qed

lemma prepare_lexicon_store_frame:
  assumes "prepare_lexicon_store h lexicon silence_phones nonsilence_phones optional_silence oov = Inr (h', r)"
  shows "length h \<le> length h' \<and> take (length h) h' = h"
proof -
  obtain h1 lexicon1 where copy: "deepcopy h Map.empty lexicon = (h1, lexicon1)"
    by (cases "deepcopy h Map.empty lexicon")
  from deepcopy_frame [of "length h" h Map.empty lexicon] copy
  have h1: "take (length h) h1 = h" "length h \<le> length h1"
    and fresh: "\<forall>a \<in> set (addresses lexicon1). length h \<le> a"
    by simp_all
  from assms copy obtain h2 st where tag: "tag_store h1 lexicon1 = Inr h2"
    and dis: "add_disambig_store (count_transcriptions (read_lexicon h2 lexicon1))
                (all_prefixes (read_lexicon h2 lexicon1))
                \<lparr>max_disambig = 0, reserved_empty = [], last_sym = Map.empty\<rparr> h2 lexicon1 = Inr (st, h')"
    unfolding prepare_lexicon_store_def
    by (auto simp: Let_def split: if_splits sum.splits prod.splits option.splits)
  from tag_store_frame [OF tag fresh] have h2: "take (length h) h2 = take (length h) h1" "length h2 = length h1"
    by simp_all
  from add_disambig_store_frame [OF dis fresh] have "take (length h) h' = take (length h) h2" "length h' = length h2"
    by simp_all
  with h1 h2 show ?thesis
    by simp
qed

subsection \<open>Separate pronunciation lists: the store agrees with the values\<close>

lemma read_lexicon_Cons:
  "read_lexicon h ((w, p, a) # rest) = (w, p, h ! a) # read_lexicon h rest"
  by (simp add: read_lexicon_def)

lemma read_lexicon_update:
  "a \<notin> set (addresses lexicon) \<Longrightarrow> read_lexicon (h[a := v]) lexicon = read_lexicon h lexicon"
  by (induction lexicon) (auto simp: read_lexicon_def addresses_def)

lemma read_lexicon_append:
  "list_all (\<lambda>a. a < length h) (addresses lexicon) \<Longrightarrow>
     read_lexicon (h @ h') lexicon = read_lexicon h lexicon"
  by (induction lexicon) (auto simp: read_lexicon_def addresses_def nth_append)

lemma deepcopy_separate:
  assumes "distinct (addresses lexicon)"
    and "list_all (\<lambda>a. a < length h) (addresses lexicon)"
    and "\<And>a. a \<in> set (addresses lexicon) \<Longrightarrow> memo a = None"
  shows "fst (deepcopy h memo lexicon) = h @ map (\<lambda>a. h ! a) (addresses lexicon)
    \<and> snd (deepcopy h memo lexicon)
        = map2 (\<lambda>e a'. (fst e, fst (snd e), a')) lexicon [length h..<length h + length lexicon]"
  using assms
proof (induction lexicon arbitrary: h memo)
  case Nil
  show ?case by (simp add: addresses_def)
next
  case (Cons e lexicon)
  obtain w p a where e: "e = (w, p, a)"
    by (cases e)
  let ?h = "h @ [h ! a]" and ?memo = "memo(a \<mapsto> length h)"
  from Cons.prems(3) have none: "memo a = None"
    by (simp add: e addresses_def)
  from Cons.prems(1) have d: "distinct (addresses lexicon)" and a: "a \<notin> set (addresses lexicon)"
    by (simp_all add: e addresses_def)
  from Cons.prems(2) have wf: "list_all (\<lambda>a. a < length h) (addresses lexicon)" and al: "a < length h"
    by (simp_all add: e addresses_def)
  from wf have wf': "list_all (\<lambda>a. a < length ?h) (addresses lexicon)"
    by (auto simp: list_all_iff)
  have m: "?memo b = None" if "b \<in> set (addresses lexicon)" for b
    using that a Cons.prems(3) by (auto simp: e addresses_def)
  have IH: "fst (deepcopy ?h ?memo lexicon) = ?h @ map (\<lambda>a. ?h ! a) (addresses lexicon)
    \<and> snd (deepcopy ?h ?memo lexicon)
        = map2 (\<lambda>e a'. (fst e, fst (snd e), a')) lexicon [length ?h..<length ?h + length lexicon]"
    using d wf' m by (rule Cons.IH)
  have same: "map (\<lambda>a. ?h ! a) (addresses lexicon) = map (\<lambda>a. h ! a) (addresses lexicon)"
    using wf by (auto simp: list_all_iff nth_append)
  have eq: "deepcopy h memo (e # lexicon)
      = (fst (deepcopy ?h ?memo lexicon), (w, p, length h) # snd (deepcopy ?h ?memo lexicon))"
    using none by (simp add: e)
  have upt: "[length h..<length h + length (e # lexicon)]
      = length h # [length ?h..<length ?h + length lexicon]"
    by (simp add: upt_conv_Cons del: upt_Suc)
  from IH have fstE: "fst (deepcopy ?h ?memo lexicon) = ?h @ map (\<lambda>a. h ! a) (addresses lexicon)"
    unfolding same by blast
  from IH have sndE: "snd (deepcopy ?h ?memo lexicon)
        = map2 (\<lambda>e a'. (fst e, fst (snd e), a')) lexicon [length ?h..<length ?h + length lexicon]"
    by blast
  show ?case
    unfolding eq upt fst_conv snd_conv fstE sndE
    by (simp add: e addresses_def del: upt_Suc)
qed

lemma deepcopy_read:
  assumes "distinct (addresses lexicon)" and "list_all (\<lambda>a. a < length h) (addresses lexicon)"
  shows "read_lexicon (fst (deepcopy h Map.empty lexicon)) (snd (deepcopy h Map.empty lexicon))
      = read_lexicon h lexicon"
    and "distinct (addresses (snd (deepcopy h Map.empty lexicon)))"
    and "list_all (\<lambda>a. a < length (fst (deepcopy h Map.empty lexicon)))
           (addresses (snd (deepcopy h Map.empty lexicon)))"
proof -
  let ?n = "length lexicon"
  from deepcopy_separate [OF assms, of Map.empty]
  have f: "fst (deepcopy h Map.empty lexicon) = h @ map (\<lambda>a. h ! a) (addresses lexicon)"
    and s: "snd (deepcopy h Map.empty lexicon)
        = map2 (\<lambda>e a'. (fst e, fst (snd e), a')) lexicon [length h..<length h + ?n]"
    by simp_all
  have addr: "addresses (snd (deepcopy h Map.empty lexicon)) = [length h..<length h + ?n]"
    unfolding s addresses_def by (rule nth_equalityI) simp_all
  show "distinct (addresses (snd (deepcopy h Map.empty lexicon)))"
    unfolding addr by simp
  show "list_all (\<lambda>a. a < length (fst (deepcopy h Map.empty lexicon)))
           (addresses (snd (deepcopy h Map.empty lexicon)))"
    unfolding addr f by (simp add: list_all_iff addresses_def)
  show "read_lexicon (fst (deepcopy h Map.empty lexicon)) (snd (deepcopy h Map.empty lexicon))
      = read_lexicon h lexicon"
    unfolding f s read_lexicon_def
    by (rule nth_equalityI) (simp_all add: nth_append addresses_def case_prod_unfold)
qed

lemma tag_store_other:
  "tag_store h lexicon = Inr h' \<Longrightarrow> a \<notin> set (addresses lexicon) \<Longrightarrow> h' ! a = h ! a"
proof (induction lexicon arbitrary: h)
  case Nil
  then show ?case by simp
next
  case (Cons e lexicon)
  obtain w p b where e: "e = (w, p, b)"
    by (cases e)
  from Cons.prems(1) obtain t where "tag_store (h[b := t]) lexicon = Inr h'"
    by (auto simp: e split: sum.splits)
  moreover from Cons.prems(2) have "a \<noteq> b" "a \<notin> set (addresses lexicon)"
    by (auto simp: e addresses_def)
  ultimately show ?case
    using Cons.IH by fastforce
qed

lemma add_disambig_store_other:
  "add_disambig_store c ps st h lexicon = Inr (st', h') \<Longrightarrow> a \<notin> set (addresses lexicon) \<Longrightarrow>
     h' ! a = h ! a"
proof (induction lexicon arbitrary: h st)
  case Nil
  then show ?case by simp
next
  case (Cons e lexicon)
  obtain w p b where e: "e = (w, p, b)"
    by (cases e)
  from Cons.prems(1) obtain st1 s where
    "add_disambig_store c ps st1 (h[b := append_symbol (h ! b) s]) lexicon = Inr (st', h')"
    by (auto simp: e split: sum.splits prod.splits)
  moreover from Cons.prems(2) have "a \<noteq> b" "a \<notin> set (addresses lexicon)"
    by (auto simp: e addresses_def)
  ultimately show ?case
    using Cons.IH by fastforce
qed

lemma tag_store_values:
  assumes "distinct (addresses lexicon)" and "list_all (\<lambda>a. a < length h) (addresses lexicon)"
  shows "tag_lexicon (read_lexicon h lexicon)
      = map_sum id (\<lambda>h'. read_lexicon h' lexicon) (tag_store h lexicon)"
  using assms
proof (induction lexicon arbitrary: h)
  case Nil
  show ?case by (simp add: read_lexicon_def)
next
  case (Cons e lexicon)
  obtain w p a where e: "e = (w, p, a)"
    by (cases e)
  from Cons.prems(1) have d: "distinct (addresses lexicon)" and a: "a \<notin> set (addresses lexicon)"
    by (simp_all add: e addresses_def)
  from Cons.prems(2) have wf: "list_all (\<lambda>a. a < length h) (addresses lexicon)" and al: "a < length h"
    by (simp_all add: e addresses_def)
  show ?case
  proof (cases "tag_trans (h ! a)")
    case (Inl err)
    then show ?thesis
      by (simp add: e read_lexicon_Cons)
  next
    case (Inr t)
    let ?h = "h[a := t]"
    from wf have "list_all (\<lambda>a. a < length ?h) (addresses lexicon)"
      by simp
    with d have IH: "tag_lexicon (read_lexicon ?h lexicon)
        = map_sum id (\<lambda>h'. read_lexicon h' lexicon) (tag_store ?h lexicon)"
      by (rule Cons.IH)
    have rd: "read_lexicon ?h lexicon = read_lexicon h lexicon"
      using a by (rule read_lexicon_update)
    show ?thesis
    proof (cases "tag_store ?h lexicon")
      case (Inl err)
      with IH Inr show ?thesis
        by (simp add: e read_lexicon_Cons rd)
    next
      case r: (Inr h')
      from tag_store_other [OF r a] al have "h' ! a = t"
        by simp
      with IH Inr r show ?thesis
        by (simp add: e read_lexicon_Cons rd)
    qed
  qed
qed

lemma add_disambig_store_values:
  assumes "distinct (addresses lexicon)" and "list_all (\<lambda>a. a < length h) (addresses lexicon)"
  shows "add_disambig_loop c ps st (read_lexicon h lexicon)
      = map_sum id (\<lambda>(st', h'). (st', read_lexicon h' lexicon)) (add_disambig_store c ps st h lexicon)"
  using assms
proof (induction lexicon arbitrary: h st)
  case Nil
  show ?case by (simp add: read_lexicon_def)
next
  case (Cons e lexicon)
  obtain w p a where e: "e = (w, p, a)"
    by (cases e)
  from Cons.prems(1) have d: "distinct (addresses lexicon)" and a: "a \<notin> set (addresses lexicon)"
    by (simp_all add: e addresses_def)
  from Cons.prems(2) have wf: "list_all (\<lambda>a. a < length h) (addresses lexicon)" and al: "a < length h"
    by (simp_all add: e addresses_def)
  show ?case
  proof (cases "choose_symbol c ps st (join_sp (h ! a))")
    case (Inl err)
    then show ?thesis
      by (simp add: e read_lexicon_Cons)
  next
    case (Inr res)
    obtain st1 s where res: "res = (st1, s)"
      by (cases res)
    let ?h = "h[a := append_symbol (h ! a) s]"
    from wf have "list_all (\<lambda>a. a < length ?h) (addresses lexicon)"
      by simp
    with d have IH: "add_disambig_loop c ps st1 (read_lexicon ?h lexicon)
        = map_sum id (\<lambda>(st', h'). (st', read_lexicon h' lexicon)) (add_disambig_store c ps st1 ?h lexicon)"
      by (rule Cons.IH)
    have rd: "read_lexicon ?h lexicon = read_lexicon h lexicon"
      using a by (rule read_lexicon_update)
    show ?thesis
    proof (cases "add_disambig_store c ps st1 ?h lexicon")
      case (Inl err)
      with IH Inr res show ?thesis
        by (simp add: e read_lexicon_Cons rd)
    next
      case r: (Inr res')
      obtain st' h' where res': "res' = (st', h')"
        by (cases res')
      from add_disambig_store_other [OF r [unfolded res'] a] al have "h' ! a = append_symbol (h ! a) s"
        by simp
      with IH Inr res r res' show ?thesis
        by (simp add: e read_lexicon_Cons rd)
    qed
  qed
qed

text \<open>
  When the pronunciation lists of the caller's lexicon are separate objects, the function
  on the store returns what the function on values returns for the contents.
\<close>

lemma prepare_lexicon_store_values:
  assumes "distinct (addresses lexicon)" and "list_all (\<lambda>a. a < length h) (addresses lexicon)"
  shows "map_sum id snd (prepare_lexicon_store h lexicon silence_phones nonsilence_phones optional_silence oov)
      = prepare_lexicon (read_lexicon h lexicon) silence_phones nonsilence_phones optional_silence oov"
proof (cases "phones_declared (read_lexicon h lexicon) silence_phones nonsilence_phones")
  case False
  then show ?thesis
    by (simp add: prepare_lexicon_store_def prepare_lexicon_def)
next
  case True
  obtain h1 lexicon1 where copy: "deepcopy h Map.empty lexicon = (h1, lexicon1)"
    by (cases "deepcopy h Map.empty lexicon")
  from deepcopy_read [OF assms] copy have rd1: "read_lexicon h1 lexicon1 = read_lexicon h lexicon"
    and d1: "distinct (addresses lexicon1)"
    and wf1: "list_all (\<lambda>a. a < length h1) (addresses lexicon1)"
    by simp_all
  note tag = tag_store_values [OF d1 wf1, unfolded rd1]
  show ?thesis
  proof (cases "tag_store h1 lexicon1")
    case (Inl err)
    with tag True copy show ?thesis
      by (simp add: prepare_lexicon_store_def prepare_lexicon_def)
  next
    case (Inr h2)
    with tag have tagged: "tag_lexicon (read_lexicon h lexicon) = Inr (read_lexicon h2 lexicon1)"
      by simp
    from tag_store_frame [OF Inr, of 0] have "length h2 = length h1"
      by simp
    with wf1 have wf2: "list_all (\<lambda>a. a < length h2) (addresses lexicon1)"
      by simp
    let ?c = "count_transcriptions (read_lexicon h2 lexicon1)"
    let ?ps = "all_prefixes (read_lexicon h2 lexicon1)"
    let ?st0 = "\<lparr>max_disambig = 0, reserved_empty = [], last_sym = Map.empty\<rparr>"
    note dis = add_disambig_store_values [OF d1 wf2, of ?c ?ps ?st0]
    show ?thesis
    proof (cases "add_disambig_store ?c ?ps ?st0 h2 lexicon1")
      case (Inl err)
      with dis True copy Inr tagged show ?thesis
        by (simp add: prepare_lexicon_store_def prepare_lexicon_def add_disambig_def Let_def)
    next
      case r: (Inr res)
      obtain st h3 where res: "res = (st, h3)"
        by (cases res)
      with dis r have loop: "add_disambig_loop ?c ?ps ?st0 (read_lexicon h2 lexicon1)
          = Inr (st, read_lexicon h3 lexicon1)"
        by simp
      from True copy Inr tagged r res loop show ?thesis
        by (simp add: prepare_lexicon_store_def prepare_lexicon_def add_disambig_def Let_def
            case_prod_unfold write_fst_with_silence_half split: option.splits)
    qed
  qed
qed

lemmas store_eval_defs =
  prepare_lexicon_store_def read_lexicon_def addresses_def

text \<open>
  C10. When \<^verbatim>\<open>prepare_lexicon\<close> returns, every list object that existed before the call
  has the contents it had: the store after the call extends the store before it. For a
  lexicon whose pronunciation lists are objects of the store before the call, the caller
  reads the same words, weights and pronunciations as before; the tags and symbols are
  in the objects allocated by the copy.
\<close>

theorem prepare_lexicon_store_caller_unchanged:
  assumes "prepare_lexicon_store h lexicon silence_phones nonsilence_phones optional_silence oov = Inr (h', r)"
    and "list_all (\<lambda>a. a < length h) (addresses lexicon)"
  shows "length h \<le> length h' \<and> take (length h) h' = h
    \<and> read_lexicon h' lexicon = read_lexicon h lexicon"
proof -
  from prepare_lexicon_store_frame [OF assms(1)]
  have frame: "length h \<le> length h'" "take (length h) h' = h"
    by simp_all
  then have "take (length h) h' = take (length h) h"
    by simp
  then have "read_lexicon h' lexicon = read_lexicon h lexicon"
    using assms(2) by (rule read_lexicon_take)
  with frame show ?thesis
    by simp
qed

lemma prepare_lexicon_store_two_words:
  "map_sum id fst (prepare_lexicon_store [[''x''], [''x'']] [(''a'', 0, 0), (''b'', 0, 1)]
      [''sil''] [''x''] ''sil'' ''<unk>'')
     = Inr [[''x''], [''x''], [''x_S'', ''#1''], [''x_S'', ''#2'']]"
  by (simp add: store_eval_defs eval_defs Let_def)

theorem prepare_lexicon_store_caller_unchanged_witness:
  "list_all (\<lambda>a. a < length [[''x''], [''x'']]) (addresses [(''a'', 0, 0), (''b'', 0, 1)])
   \<and> map_sum id fst (prepare_lexicon_store [[''x''], [''x'']] [(''a'', 0, 0), (''b'', 0, 1)]
        [''sil''] [''x''] ''sil'' ''<unk>'')
       = Inr [[''x''], [''x''], [''x_S'', ''#1''], [''x_S'', ''#2'']]
   \<and> take (length [[''x''], [''x'']]) [[''x''], [''x''], [''x_S'', ''#1''], [''x_S'', ''#2'']]
       = [[''x''], [''x'']]
   \<and> read_lexicon [[''x''], [''x''], [''x_S'', ''#1''], [''x_S'', ''#2'']] [(''a'', 0, 0), (''b'', 0, 1)]
       = read_lexicon [[''x''], [''x'']] [(''a'', 0, 0), (''b'', 0, 1)]"
proof -
  let ?h = "[[''x''], [''x'']]" and ?lex = "[(''a'', 0::real, 0::nat), (''b'', 0, 1)]"
  let ?h' = "[[''x''], [''x''], [''x_S'', ''#1''], [''x_S'', ''#2'']]"
  have wf: "list_all (\<lambda>a. a < length ?h) (addresses ?lex)"
    by (simp add: addresses_def)
  from prepare_lexicon_store_two_words obtain r where
    r: "prepare_lexicon_store ?h ?lex [''sil''] [''x''] ''sil'' ''<unk>'' = Inr (?h', r)"
    by (cases "prepare_lexicon_store ?h ?lex [''sil''] [''x''] ''sil'' ''<unk>''") auto
  from prepare_lexicon_store_caller_unchanged [OF r wf]
  have "take (length ?h) ?h' = ?h" and "read_lexicon ?h' ?lex = read_lexicon ?h ?lex"
    by blast+
  with wf prepare_lexicon_store_two_words show ?thesis
    by blast
qed

text \<open>
  Two entries that share one pronunciation list share its copy: the list is tagged
  twice, and after the first entry got its symbol the second finds the joined list
  missing from \<^verbatim>\<open>count\<close>. The function on values is about lexicons whose pronunciation
  lists are separate objects.
\<close>

lemma prepare_lexicon_store_shared_list:
  "prepare_lexicon_store [[''x'']] [(''a'', 0, 0), (''b'', 0, 0)] [''sil''] [''x''] ''sil'' ''<unk>''
     = Inl KeyError"
  by (simp add: store_eval_defs eval_defs Let_def)

end
